theory Spec2Isabelle
  imports Complex_Main "HOL-Library.Option_ord"
begin

section \<open>Search layer of the lexicon-enhanced lemmatizer\<close>

text \<open>
  The development embeds the decoding code of
  \<^verbatim>\<open>lexenlem/models/common/seq2seq_model.py\<close> (class \<^verbatim>\<open>Seq2SeqModelCombined\<close>:
  \<^verbatim>\<open>forward\<close>, \<^verbatim>\<open>predict_greedy\<close>, \<^verbatim>\<open>predict\<close> and its local function
  \<^verbatim>\<open>update_state\<close>). The copy of \<^verbatim>\<open>update_state\<close> and of the main loop in
  \<^verbatim>\<open>stanfordnlp/models/common/seq2seq_model.py\<close> is the same text.

  Tensors are lists: a two-dimensional tensor is the list of its rows. Python exceptions
  are values of the type \<open>error\<close>; a function that can raise returns \<open>error + 'a\<close>.
\<close>

subsection \<open>Errors and vocabulary constants\<close>

datatype error = ZeroDivisionError | RuntimeError | IndexError | AttributeError

text \<open>
  Modelled from the spec: the module \<^verbatim>\<open>seq2seq_constant\<close> that the source imports as
  \<^verbatim>\<open>constant\<close> is not among the source files. The specification's end-to-end scenario
  numbers the control tokens \<^verbatim>\<open>PAD=0, SOS=1, EOS=2\<close>; this is \<^verbatim>\<open>constant.PAD_ID\<close>.
\<close>

definition PAD_ID :: nat where
  "PAD_ID = 0"

text \<open>
  Modelled from the spec: \<^verbatim>\<open>constant.SOS_ID\<close> of the missing module
  \<^verbatim>\<open>seq2seq_constant\<close>, \<^verbatim>\<open>SOS=1\<close> in the specification's scenario.
\<close>

definition SOS_ID :: nat where
  "SOS_ID = 1"

text \<open>
  Modelled from the spec: \<^verbatim>\<open>constant.EOS_ID\<close> of the missing module
  \<^verbatim>\<open>seq2seq_constant\<close>, \<^verbatim>\<open>EOS=2\<close> in the specification's scenario.
\<close>

definition EOS_ID :: nat where
  "EOS_ID = 2"

subsection \<open>Reordering the carried state: \<^verbatim>\<open>update_state\<close>\<close>

text \<open>
  \<^verbatim>\<open>
  def update_state(states, idx, positions, beam_size):
      """ Select the states according to back pointers. """
      for e in states:
          br, d = e.size()
          s = e.contiguous().view(beam_size, br // beam_size, d)[:,idx]
          s.data.copy_(s.data.index_select(0, positions))
  \<close>
  \<open>row_dim\<close> is \<^verbatim>\<open>d\<close>, the width of the rows (of the first row; a tensor's rows
  have one width, and a tensor without rows has no elements whatever its width).
\<close>

definition row_dim :: "'v list list \<Rightarrow> nat" where
  "row_dim e = (case e of [] \<Rightarrow> 0 | r # _ \<Rightarrow> length r)"

text \<open>
  \<^verbatim>\<open>e.contiguous().view(beam_size, br // beam_size, d)\<close>: Python's \<^verbatim>\<open>//\<close> raises
  \<^verbatim>\<open>ZeroDivisionError\<close> on a zero divisor and rounds down otherwise (as \<open>div\<close> on
  \<open>int\<close> does). \<^verbatim>\<open>view\<close> raises \<^verbatim>\<open>RuntimeError\<close> when a requested dimension is
  negative (a lone \<^verbatim>\<open>-1\<close> is inferred, but then the second dimension \<^verbatim>\<open>-br\<close> is
  negative too, or zero and the inference ambiguous) and when the requested shape does
  not have as many elements as the tensor, \<^verbatim>\<open>br * d\<close>. The result is the number of
  rows per beam slot, \<^verbatim>\<open>br // beam_size\<close>.
\<close>

definition view_beam :: "int \<Rightarrow> 'v list list \<Rightarrow> error + nat" where
  "view_beam beam_size e =
     (let br = int (length e); d = int (row_dim e) in
      if beam_size = 0 then Inl ZeroDivisionError
      else if beam_size < 0 then Inl RuntimeError
      else if beam_size * (br div beam_size) * d \<noteq> br * d then Inl RuntimeError
      else Inr (nat (br div beam_size)))"

text \<open>
  One tensor of \<^verbatim>\<open>states\<close>. With \<open>m\<close> rows per beam slot, \<^verbatim>\<open>[:,idx]\<close> is the slice
  of the rows \<open>k * m + idx\<close> for \<open>k < beam_size\<close> (\<^verbatim>\<open>IndexError\<close> when \<open>idx\<close> is
  not below \<open>m\<close>); \<^verbatim>\<open>index_select(0, positions)\<close> reads the slice at \<open>positions\<close>
  (an error when a position is not below \<open>beam_size\<close>); \<^verbatim>\<open>copy_\<close> writes the
  selection back into the slice, which shares the storage of \<open>e\<close>, broadcasting a
  single selected row and raising on any other length mismatch.
\<close>

definition update_state_one :: "'v list list \<Rightarrow> nat \<Rightarrow> nat list \<Rightarrow> int \<Rightarrow> error + 'v list list" where
  "update_state_one e idx positions beam_size =
     (case view_beam beam_size e of
        Inl err \<Rightarrow> Inl err
      | Inr m \<Rightarrow>
          if m \<le> idx then Inl IndexError
          else if list_ex (\<lambda>p. beam_size \<le> int p) positions then Inl IndexError
          else
            (let sel = map (\<lambda>p. e ! (p * m + idx)) positions in
             if length sel = nat beam_size
             then Inr (fold (\<lambda>k acc. acc[k * m + idx := sel ! k]) [0..<nat beam_size] e)
             else if length sel = 1
             then Inr (fold (\<lambda>k acc. acc[k * m + idx := sel ! 0]) [0..<nat beam_size] e)
             else Inl RuntimeError))"

text \<open>The loop \<^verbatim>\<open>for e in states\<close>: the first tensor that raises ends the call.\<close>

fun update_state :: "'v list list list \<Rightarrow> nat \<Rightarrow> nat list \<Rightarrow> int \<Rightarrow> error + 'v list list list" where
  "update_state [] idx positions beam_size = Inr []"
| "update_state (e # es) idx positions beam_size =
     (case update_state_one e idx positions beam_size of
        Inl err \<Rightarrow> Inl err
      | Inr e' \<Rightarrow>
          (case update_state es idx positions beam_size of
             Inl err \<Rightarrow> Inl err
           | Inr es' \<Rightarrow> Inr (e' # es')))"

subsection \<open>The Scorer\<close>

text \<open>
  The neural network is opaque to the search layer. Its parts are fields of the model:
  \<^item> \<open>encode\<close> stands for lines 447-462 (512-527) of the source: the embedding, the
    dropout layer \<^verbatim>\<open>emb_drop\<close> on the embedded \<^verbatim>\<open>lem\<close>, the two calls of
    \<^verbatim>\<open>self.encode\<close> and the two linear layers. For one example (a row of each
    of \<^verbatim>\<open>src\<close>, \<^verbatim>\<open>src_mask\<close>, \<^verbatim>\<open>lem\<close>, \<^verbatim>\<open>lem_mask\<close>) it gives the context
    (\<^verbatim>\<open>h_in\<close>, \<^verbatim>\<open>h_in1\<close> and the masks) and the rows of \<^verbatim>\<open>hn\<close> and \<^verbatim>\<open>cn\<close>;
  \<^item> \<open>decode\<close> stands for \<^verbatim>\<open>self.embedding\<close> followed by \<^verbatim>\<open>self.decode\<close> on one
    row of the batch: from the context, the input token and the rows of \<^verbatim>\<open>hn\<close> and
    \<^verbatim>\<open>cn\<close> it gives the row of log-probabilities, the new rows of \<^verbatim>\<open>hn\<close> and
    \<^verbatim>\<open>cn\<close>, and the attention weights of the row;
  \<^item> \<open>edit\<close> and \<open>edit_clf\<close> are \<^verbatim>\<open>self.edit\<close> and \<^verbatim>\<open>self.edit_clf\<close>;
  \<^item> \<open>max_dec_len\<close>, \<open>is_lexicon\<close>, \<open>lexicon_dropout\<close> are the attributes of these
    names.
  The network computes each row of a batch from that row alone, so a batch is decoded by
  mapping \<open>decode\<close> over its rows. Log-probabilities are real numbers here; the source
  computes them in floating point. The fields are functions: the numbers that the
  dropout layers draw when the module is in training mode are not part of the model,
  and neither is any other state of the runtime, so nothing here can tell two runs on
  the same arguments apart.
\<close>

record ('c, 'v, 'e, 'a) seq2seq =
  encode :: "nat list \<Rightarrow> nat list \<Rightarrow> nat list \<Rightarrow> nat list \<Rightarrow> 'c \<times> 'v list \<times> 'v list"
  decode :: "'c \<Rightarrow> nat \<Rightarrow> 'v list \<Rightarrow> 'v list \<Rightarrow> real list \<times> 'v list \<times> 'v list \<times> 'a"
  edit :: bool
  edit_clf :: "'v list \<Rightarrow> 'e"
  max_dec_len :: int
  is_lexicon :: bool
  lexicon_dropout :: real

text \<open>The calls into the Scorer, in the order in which a run makes them.\<close>

datatype call = Encode | Decode

definition encode_batch ::
  "('c, 'v, 'e, 'a) seq2seq \<Rightarrow> nat list list \<Rightarrow> nat list list \<Rightarrow> nat list list \<Rightarrow> nat list list
   \<Rightarrow> ('c \<times> 'v list \<times> 'v list) list" where
  "encode_batch self src src_mask lem lem_mask =
     map (\<lambda>(s, sm, l, lm). encode self s sm l lm) (zip src (zip src_mask (zip lem lem_mask)))"

definition decode_batch ::
  "('c, 'v, 'e, 'a) seq2seq \<Rightarrow> 'c list \<Rightarrow> nat list \<Rightarrow> 'v list list \<Rightarrow> 'v list list
   \<Rightarrow> (real list \<times> 'v list \<times> 'v list \<times> 'a) list" where
  "decode_batch self ctx dec_inputs hn cn =
     map (\<lambda>(c, t, h, cc). decode self c t h cc) (zip ctx (zip dec_inputs (zip hn cn)))"

text \<open>
  \<^verbatim>\<open>edit_logits = self.edit_clf(hn) if self.edit else None\<close>, on the encoder's final
  \<^verbatim>\<open>hn\<close>.
\<close>

definition edit_logits_of :: "('c, 'v, 'e, 'a) seq2seq \<Rightarrow> 'v list list \<Rightarrow> 'e list option" where
  "edit_logits_of self hn = (if edit self then Some (map (edit_clf self) hn) else None)"

subsection \<open>What a call of \<^verbatim>\<open>predict\<close> leaves behind\<close>

text \<open>
  The dictionary of attention weights that \<^verbatim>\<open>log_attn\<close> asks for, the value a call
  returns (a pair on the beam path, a triple on the greedy path), and the outcome of a
  call: the Scorer calls it made, what it wrote to \<^verbatim>\<open>log_attn.json\<close>, and what it
  returned or raised.
\<close>

record 'a log_attns =
  la_src :: "nat list list"
  la_lem :: "nat list list"
  la_attns :: "'a list list"
  la_all_hyp :: "nat list list"

datatype ('e, 'a) retval =
  Ret2 "nat list list" "'e list option"
| Ret3 "nat list list" "'e list option" "'a log_attns option"

record ('e, 'a) outcome =
  calls :: "call list"
  dumped :: "'a log_attns option"
  ret :: "error + ('e, 'a) retval"

subsection \<open>Greedy decoding: \<^verbatim>\<open>predict_greedy\<close>\<close>

text \<open>
  \<^verbatim>\<open>_, preds = log_probs.squeeze(1).max(1, keepdim=True)\<close>: the index of the maximal
  entry of each row, the first one when several entries are maximal. On a row without
  entries \<^verbatim>\<open>max\<close> raises.
\<close>

fun argmax :: "'s::linorder list \<Rightarrow> nat" where
  "argmax [] = 0"
| "argmax (x # xs) = (if list_all (\<lambda>y. y \<le> x) xs then 0 else Suc (argmax xs))"

text \<open>The variables of the loop of \<^verbatim>\<open>predict_greedy\<close>.\<close>

record ('v, 'a) greedy_state =
  g_hn :: "'v list list"
  g_cn :: "'v list list"
  g_dec_inputs :: "nat list"
  g_done :: "bool list"
  g_total_done :: nat
  g_max_len :: nat
  g_output_seqs :: "nat list list"
  g_attns :: "'a list list"

text \<open>
  \<^verbatim>\<open>
  for i in range(batch_size):
      if not done[i]:
          token = preds.data[i][0].item()
          if token == constant.EOS_ID:
              done[i] = True
              total_done += 1
          else:
              output_seqs[i].append(token)
  \<close>
\<close>

definition collect_token :: "nat list \<Rightarrow> nat \<Rightarrow> ('v, 'a) greedy_state \<Rightarrow> ('v, 'a) greedy_state" where
  "collect_token preds i st =
     (if \<not> g_done st ! i then
        (let token = preds ! i in
         if token = EOS_ID
         then st\<lparr>g_done := (g_done st)[i := True], g_total_done := g_total_done st + 1\<rparr>
         else st\<lparr>g_output_seqs := (g_output_seqs st)[i := g_output_seqs st ! i @ [token]]\<rparr>)
      else st)"

text \<open>
  The body of the \<^verbatim>\<open>while\<close> loop (lines 480-493): one decoder step for the whole
  batch, the predictions, and the loop over the examples. The decoder is given one
  input token per example, so its output has the one step that line 481 asserts.
\<close>

definition greedy_body ::
  "('c, 'v, 'e, 'a) seq2seq \<Rightarrow> 'c list \<Rightarrow> nat \<Rightarrow> ('v, 'a) greedy_state \<Rightarrow> error + ('v, 'a) greedy_state" where
  "greedy_body self ctx batch_size st =
     (let out = decode_batch self ctx (g_dec_inputs st) (g_hn st) (g_cn st);
          log_probs = map fst out
      in if list_ex (\<lambda>row. row = []) log_probs then Inl RuntimeError
         else
           (let preds = map argmax log_probs;
                st1 = st\<lparr>g_hn := map (\<lambda>(lp, h, cc, a). h) out,
                         g_cn := map (\<lambda>(lp, h, cc, a). cc) out,
                         g_dec_inputs := preds,
                         g_max_len := g_max_len st + 1,
                         g_attns := g_attns st @ [map (\<lambda>(lp, h, cc, a). a) out]\<rparr>
            in Inr (fold (collect_token preds) [0..<batch_size] st1)))"

lemma fold_collect_token_max_len:
  "g_max_len (fold (collect_token preds) is st) = g_max_len st"
  by (induction "is" arbitrary: st) (simp_all add: collect_token_def Let_def)

lemma greedy_body_max_len:
  "greedy_body self ctx batch_size st = Inr st' \<Longrightarrow> g_max_len st' = Suc (g_max_len st)"
  by (auto simp: greedy_body_def Let_def fold_collect_token_max_len split: if_splits)

text \<open>
  \<^verbatim>\<open>while total_done < batch_size and max_len < self.max_dec_len:\<close> The Scorer calls
  made so far are threaded through the loop, so that a run that raises keeps them.
\<close>

function greedy_loop ::
  "('c, 'v, 'e, 'a) seq2seq \<Rightarrow> 'c list \<Rightarrow> nat \<Rightarrow> call list \<Rightarrow> ('v, 'a) greedy_state
   \<Rightarrow> call list \<times> (error + ('v, 'a) greedy_state)" where
  "greedy_loop self ctx batch_size cs st =
     (if g_total_done st < batch_size \<and> int (g_max_len st) < max_dec_len self then
        (case greedy_body self ctx batch_size st of
           Inl err \<Rightarrow> (cs @ [Decode], Inl err)
         | Inr st' \<Rightarrow> greedy_loop self ctx batch_size (cs @ [Decode]) st')
      else (cs, Inr st))"
  by pat_completeness auto
termination
  by (relation "measure (\<lambda>(self, ctx, batch_size, cs, st). nat (max_dec_len self - int (g_max_len st)))")
     (auto dest: greedy_body_max_len)

declare greedy_loop.simps [simp del]

text \<open>
  \<^verbatim>\<open>predict_greedy(self, src, src_mask, lem, lem_mask, log_attn)\<close>. The four input
  tensors have one row per example. The first encoder raises when \<^verbatim>\<open>src_mask\<close> has
  not one row for each row of \<^verbatim>\<open>src\<close>, the second when \<^verbatim>\<open>lem_mask\<close> has not one
  row for each row of \<^verbatim>\<open>lem\<close>; when \<^verbatim>\<open>lem\<close> has another number of rows than
  \<^verbatim>\<open>src\<close>, both encoders run and \<^verbatim>\<open>torch.cat\<close> (line 458, line 523 in
  \<^verbatim>\<open>predict\<close>) raises: \<open>mismatch_calls\<close> are the Scorer calls made until then. The
  decoder starts from \<^verbatim>\<open>SOS\<close> for every example.
  \<^verbatim>\<open>np.array\<close> is taken to convert the lists it is given; what it does with rows of
  unequal length depends on the NumPy version and is outside the model.
\<close>

definition same_batch :: "nat list list \<Rightarrow> nat list list \<Rightarrow> nat list list \<Rightarrow> nat list list \<Rightarrow> bool" where
  "same_batch src src_mask lem lem_mask =
     (length src_mask = length src \<and> length lem = length src \<and> length lem_mask = length src)"

definition mismatch_calls :: "nat list list \<Rightarrow> nat list list \<Rightarrow> call list" where
  "mismatch_calls src src_mask =
     (if length src_mask \<noteq> length src then [Encode] else [Encode, Encode])"

definition greedy_init :: "nat \<Rightarrow> 'v list list \<Rightarrow> 'v list list \<Rightarrow> ('v, 'a) greedy_state" where
  "greedy_init batch_size hn cn =
     \<lparr>g_hn = hn, g_cn = cn, g_dec_inputs = replicate batch_size SOS_ID,
      g_done = replicate batch_size False, g_total_done = 0, g_max_len = 0,
      g_output_seqs = replicate batch_size [], g_attns = []\<rparr>"

definition predict_greedy ::
  "('c, 'v, 'e, 'a) seq2seq \<Rightarrow> nat list list \<Rightarrow> nat list list \<Rightarrow> nat list list \<Rightarrow> nat list list
   \<Rightarrow> bool \<Rightarrow> ('e, 'a) outcome" where
  "predict_greedy self src src_mask lem lem_mask log_attn =
     (if \<not> same_batch src src_mask lem lem_mask
      then \<lparr>calls = mismatch_calls src src_mask, dumped = None, ret = Inl RuntimeError\<rparr>
      else
        (let enc = encode_batch self src src_mask lem lem_mask;
             batch_size = length src;
             ctx = map (\<lambda>(c, h, cc). c) enc;
             hn = map (\<lambda>(c, h, cc). h) enc;
             cn = map (\<lambda>(c, h, cc). cc) enc;
             edit_logits = edit_logits_of self hn
         in case greedy_loop self ctx batch_size [Encode, Encode] (greedy_init batch_size hn cn) of
              (cs, Inl err) \<Rightarrow> \<lparr>calls = cs, dumped = None, ret = Inl err\<rparr>
            | (cs, Inr st) \<Rightarrow>
                \<lparr>calls = cs, dumped = None,
                 ret = Inr (Ret3 (g_output_seqs st) edit_logits
                          (if log_attn
                           then Some \<lparr>la_src = src, la_lem = lem, la_attns = g_attns st,
                                      la_all_hyp = g_output_seqs st\<rparr>
                           else None))\<rparr>))"

text \<open>The predictions of one step: \<^verbatim>\<open>preds\<close> of line 482, as a list of token ids.\<close>

definition greedy_preds :: "('c, 'v, 'e, 'a) seq2seq \<Rightarrow> 'c list \<Rightarrow> ('v, 'a) greedy_state \<Rightarrow> nat list" where
  "greedy_preds self ctx st =
     map argmax (map fst (decode_batch self ctx (g_dec_inputs st) (g_hn st) (g_cn st)))"

text \<open>The invariant of the greedy loop behind the bounds on its output.\<close>

definition greedy_inv :: "('c, 'v, 'e, 'a) seq2seq \<Rightarrow> nat \<Rightarrow> ('v, 'a) greedy_state \<Rightarrow> bool" where
  "greedy_inv self batch_size st =
     (length (g_done st) = batch_size \<and> length (g_output_seqs st) = batch_size \<and>
      int (g_max_len st) \<le> max 0 (max_dec_len self) \<and>
      (\<forall>i<batch_size. EOS_ID \<notin> set (g_output_seqs st ! i) \<and>
                       length (g_output_seqs st ! i) \<le> g_max_len st))"

subsection \<open>A Scorer for concrete runs\<close>

text \<open>
  A Scorer over the vocabulary \<^verbatim>\<open>{PAD=0, SOS=1, EOS=2, a=3, b=4}\<close> that spells out the
  unmasked tokens of the source row and then \<^verbatim>\<open>EOS\<close>: the context is that token list,
  the row of \<^verbatim>\<open>hn\<close> counts the steps taken, and a step gives log-probability \<open>-1\<close> to
  the token that is due, \<open>-2\<close> to the token after it (cyclically) and \<open>-5\<close> to the
  others. The attention weight of a row is its input token.
\<close>

definition spell_log_probs :: "nat \<Rightarrow> real list" where
  "spell_log_probs tgt = map (\<lambda>v. if v = tgt then - 1 else if v = Suc tgt mod 5 then - 2 else - 5) [0..<5]"

definition spell :: "int \<Rightarrow> (nat list, nat, nat, nat) seq2seq" where
  "spell n =
     \<lparr>encode = (\<lambda>s sm l lm. (map fst (filter (\<lambda>(t, m). m = 0) (zip s sm)), [0], [length l])),
      decode = (\<lambda>c t h cc.
         (spell_log_probs (if hd h < length c then c ! hd h else EOS_ID), [Suc (hd h)], cc, t)),
      edit = True,
      edit_clf = (\<lambda>h. length h),
      max_dec_len = n,
      is_lexicon = True,
      lexicon_dropout = 1 / 2\<rparr>"

subsection \<open>Lexicon dropout in \<^verbatim>\<open>forward\<close>\<close>

text \<open>
  Lines 404-418 of \<^verbatim>\<open>forward\<close>, the only lines of it that write to the tensors
  \<^verbatim>\<open>lem\<close> and \<^verbatim>\<open>lem_mask\<close> the caller passed (line 426 rebinds the local name
  \<^verbatim>\<open>lem_mask\<close> to a narrowed view and writes nothing):
  \<^verbatim>\<open>
  if self.is_lexicon and self.lexicon_dropout > 0:
      lem_stump = torch.tensor([constant.SOS_ID, constant.EOS_ID] +
                               [constant.PAD_ID] * (lem.size(1) - 2))
      lem_mask_stump = torch.tensor([0]*3 + [1]*(lem.size(1) - 3), dtype=lem_mask.dtype)
      lem_hide = torch.FloatTensor(lem.size(0)).uniform_() < self.lexicon_dropout
      if lem_hide.any():
          lem[lem_hide] = lem_stump.repeat(lem[lem_hide].size(0), 1)
          lem_mask[lem_hide] = lem_mask_stump.repeat(lem_mask[lem_hide].size(0), 1)
  \<close>
  A Python list times a negative number is empty, as \<open>replicate\<close> on a truncated
  difference is. The random draws are an argument: \<open>u i\<close> is the number drawn for
  row \<open>i\<close>. A masked assignment raises when the mask is not as long as the tensor and
  when the rows assigned are not as wide as the tensor's. The result is the error
  raised, if any, and the two buffers as the call leaves them.
\<close>

definition lem_stump :: "nat \<Rightarrow> nat list" where
  "lem_stump n = [SOS_ID, EOS_ID] @ replicate (n - 2) PAD_ID"

definition lem_mask_stump :: "nat \<Rightarrow> nat list" where
  "lem_mask_stump n = replicate 3 0 @ replicate (n - 3) 1"

definition masked_assign :: "bool list \<Rightarrow> nat list \<Rightarrow> nat list list \<Rightarrow> error + nat list list" where
  "masked_assign hide stump t =
     (if length hide \<noteq> length t then Inl IndexError
      else if length stump \<noteq> row_dim t then Inl RuntimeError
      else Inr (map (\<lambda>(h, r). if h then stump else r) (zip hide t)))"

definition forward_lexicon_dropout ::
  "('c, 'v, 'e, 'a) seq2seq \<Rightarrow> (nat \<Rightarrow> real) \<Rightarrow> nat list list \<Rightarrow> nat list list
   \<Rightarrow> error option \<times> nat list list \<times> nat list list" where
  "forward_lexicon_dropout self u lem lem_mask =
     (if is_lexicon self \<and> lexicon_dropout self > 0 then
        (let lem_hide = map (\<lambda>i. u i < lexicon_dropout self) [0..<length lem] in
         if list_ex (\<lambda>h. h) lem_hide then
           (case masked_assign lem_hide (lem_stump (row_dim lem)) lem of
              Inl err \<Rightarrow> (Some err, lem, lem_mask)
            | Inr lem' \<Rightarrow>
                (case masked_assign lem_hide (lem_mask_stump (row_dim lem)) lem_mask of
                   Inl err \<Rightarrow> (Some err, lem', lem_mask)
                 | Inr lem_mask' \<Rightarrow> (None, lem', lem_mask')))
         else (None, lem, lem_mask))
      else (None, lem, lem_mask))"

subsection \<open>The Beam of one example\<close>

text \<open>
  Modelled from the spec: the class \<^verbatim>\<open>Beam\<close> (module \<^verbatim>\<open>beam\<close>) is not among the
  source files. The specification (sections 3 and 4.1) gives a Beam its width \<open>K\<close>, the
  \<open>K\<close> cumulative scores of the live candidates ("initialized to 0 for the first
  candidate, \<open>-\<infinity>\<close> for the rest"), the token rows and the backpointer rows, one of each
  appended per step, and the flag \<^verbatim>\<open>done\<close>. A score is a \<open>real option\<close> with
  \<open>None\<close> for \<open>-\<infinity>\<close>, ordered with \<open>None\<close> below every number. The source
  constructs a Beam from its width alone (\<^verbatim>\<open>Beam(beam_size, self.use_cuda)\<close>), so
  the bound on the number of steps is the loop's, not the Beam's.
\<close>

record beam =
  b_width :: nat
  b_scores :: "real option list"
  b_tokens :: "nat list list"
  b_backpointers :: "nat list list"
  b_done :: bool

text \<open>
  Modelled from the spec: the constructor of the missing class \<^verbatim>\<open>Beam\<close>. No rows yet,
  score 0 for the first candidate and \<open>-\<infinity>\<close> for the rest, not done.
\<close>

definition new_beam :: "nat \<Rightarrow> beam" where
  "new_beam K =
     \<lparr>b_width = K, b_scores = map (\<lambda>i. if i = 0 then Some 0 else None) [0..<K],
      b_tokens = [], b_backpointers = [], b_done = False\<rparr>"

text \<open>
  Modelled from the spec: the selection inside \<^verbatim>\<open>advance\<close> and \<^verbatim>\<open>sort_best\<close> of the
  missing class \<^verbatim>\<open>Beam\<close>, "selects the top K by score, descending; ties broken by
  lower flattened index". The candidates come in flattened order; the first maximal one
  is taken out \<open>K\<close> times (fewer when the candidates run out).
\<close>

fun top_k :: "nat \<Rightarrow> ('x \<times> real option) list \<Rightarrow> ('x \<times> real option) list" where
  "top_k 0 cands = []"
| "top_k (Suc k) cands =
     (if cands = [] then []
      else (let j = argmax (map snd cands)
            in cands ! j # top_k k (take j cands @ drop (Suc j) cands)))"

text \<open>
  Modelled from the spec: the candidates that \<^verbatim>\<open>advance\<close> of the missing class
  \<^verbatim>\<open>Beam\<close> ranks (section 4.1). The candidate \<open>((i, v), s)\<close> extends the live
  candidate \<open>i\<close> by the token \<open>v\<close> and has the score
  \<open>s = scores[i] + step_log_probs[i][v]\<close>; the list is in flattened order.
\<close>

definition candidates :: "beam \<Rightarrow> real list list \<Rightarrow> ((nat \<times> nat) \<times> real option) list" where
  "candidates b step_log_probs =
     concat (map (\<lambda>(i, s, row). map (\<lambda>(v, x). ((i, v), map_option (\<lambda>y. y + x) s)) (enumerate 0 row))
        (zip [0..<length step_log_probs] (zip (b_scores b) step_log_probs)))"

text \<open>
  Modelled from the spec: \<^verbatim>\<open>advance(step_log_probs)\<close> of the missing class \<^verbatim>\<open>Beam\<close>
  (section 4.1). At step 0 only candidate 0 is expanded. The chosen tokens, their
  origins and their scores become the new rows and scores, and the Beam is done when the
  token at rank 0 is \<^verbatim>\<open>EOS\<close>. On a Beam that is done the call changes nothing. The
  call returns the flag.
\<close>

definition advance :: "beam \<Rightarrow> real list list \<Rightarrow> beam \<times> bool" where
  "advance b step_log_probs =
     (if b_done b then (b, True)
      else
        (let best = top_k (b_width b)
               (if b_tokens b = [] then candidates b (take 1 step_log_probs)
                else candidates b step_log_probs);
             is_done = (case best of [] \<Rightarrow> False | ((i, v), s) # _ \<Rightarrow> v = EOS_ID)
         in (b\<lparr>b_scores := map snd best,
               b_tokens := b_tokens b @ [map (\<lambda>((i, v), s). v) best],
               b_backpointers := b_backpointers b @ [map (\<lambda>((i, v), s). i) best],
               b_done := is_done\<rparr>, is_done)))"

text \<open>
  Modelled from the spec: \<^verbatim>\<open>get_current_state()\<close> of the missing class \<^verbatim>\<open>Beam\<close>
  "returns the K current (most recent) token ids". Before the first step there is no
  row: every slot then starts from \<^verbatim>\<open>SOS\<close> ("each example's K slots start from
  identical context/state"), as the greedy path of the source does.
\<close>

definition get_current_state :: "beam \<Rightarrow> nat list" where
  "get_current_state b =
     (if b_tokens b = [] then replicate (b_width b) SOS_ID else last (b_tokens b))"

text \<open>
  Modelled from the spec: \<^verbatim>\<open>get_current_origin()\<close> of the missing class \<^verbatim>\<open>Beam\<close>
  "returns the K backpointer values from the most recent row"; before the first step
  the backpointers are the identity ("undefined/identity").
\<close>

definition get_current_origin :: "beam \<Rightarrow> nat list" where
  "get_current_origin b =
     (if b_backpointers b = [] then [0..<b_width b] else last (b_backpointers b))"

text \<open>
  Modelled from the spec: \<^verbatim>\<open>sort_best()\<close> of the missing class \<^verbatim>\<open>Beam\<close> "returns
  all K final scores and their ranking (descending)": the scores in descending order
  and the slots that hold them.
\<close>

definition sort_best :: "beam \<Rightarrow> real option list \<times> nat list" where
  "sort_best b =
     (let ranked = top_k (b_width b) (enumerate 0 (b_scores b))
      in (map snd ranked, map fst ranked))"

text \<open>
  Modelled from the spec: the walk of \<^verbatim>\<open>get_hyp\<close> over the rows, last row first:
  the token of slot \<open>k\<close> is put in front of the hypothesis and \<open>k\<close> becomes the
  slot's backpointer.
\<close>

fun backtrace :: "nat list list \<Rightarrow> nat list list \<Rightarrow> nat \<Rightarrow> nat list \<Rightarrow> nat list" where
  "backtrace (trow # trows) (brow # brows) k hyp = backtrace trows brows (brow ! k) (trow ! k # hyp)"
| "backtrace trows brows k hyp = hyp"

text \<open>
  Modelled from the spec: \<^verbatim>\<open>get_hyp(rank)\<close> of the missing class \<^verbatim>\<open>Beam\<close>
  "backtraces from the chosen rank at the final step through successive backpointers
  rows to reconstruct the full token sequence".
\<close>

definition get_hyp :: "beam \<Rightarrow> nat \<Rightarrow> nat list" where
  "get_hyp b k = backtrace (rev (b_tokens b)) (rev (b_backpointers b)) k []"

text \<open>
  Modelled from the spec: the control tokens that the missing function
  \<^verbatim>\<open>utils.prune_hyp\<close> strips (section 4.4): "start-of-sequence, end-of-sequence,
  padding".
\<close>

definition is_control :: "nat \<Rightarrow> bool" where
  "is_control t = (t = SOS_ID \<or> t = EOS_ID \<or> t = PAD_ID)"

text \<open>
  Modelled from the spec: \<^verbatim>\<open>utils.prune_hyp\<close> is not among the source files. Section
  4.4: "strip leading/trailing control tokens (start-of-sequence, end-of-sequence,
  padding) to produce the final output token sequence".
\<close>

definition prune_hyp :: "nat list \<Rightarrow> nat list" where
  "prune_hyp hyp = rev (dropWhile is_control (rev (dropWhile is_control hyp)))"

subsection \<open>Beam search: \<^verbatim>\<open>predict\<close>\<close>

text \<open>The variables of the main loop of \<^verbatim>\<open>predict\<close>.\<close>

record ('v, 'a) beam_state =
  s_hn :: "'v list list"
  s_cn :: "'v list list"
  s_beam :: "beam list"
  s_attns :: "'a list list"

text \<open>
  \<^verbatim>\<open>
  done = []
  for b in range(batch_size):
      is_done = beam[b].advance(log_probs.data[b])
      if is_done:
          done += [b]
      # update beam state
      update_state((hn, cn), b, beam[b].get_current_origin(), beam_size)
  \<close>
  \<open>log_probs b\<close> is the slice of example \<open>b\<close>; \<open>update_state\<close> writes into \<^verbatim>\<open>hn\<close>
  and \<^verbatim>\<open>cn\<close>.
\<close>

fun advance_all ::
  "int \<Rightarrow> (nat \<Rightarrow> real list list) \<Rightarrow> nat list \<Rightarrow> ('v, 'a) beam_state \<Rightarrow> nat list
   \<Rightarrow> error + ('v, 'a) beam_state \<times> nat list" where
  "advance_all beam_size log_probs [] st done_list = Inr (st, done_list)"
| "advance_all beam_size log_probs (b # bs) st done_list =
     (case advance (s_beam st ! b) (log_probs b) of
        (bm, is_done) \<Rightarrow>
          (case update_state [s_hn st, s_cn st] b (get_current_origin bm) beam_size of
             Inl err \<Rightarrow> Inl err
           | Inr states \<Rightarrow>
               advance_all beam_size log_probs bs
                 (st\<lparr>s_beam := (s_beam st)[b := bm], s_hn := states ! 0, s_cn := states ! 1\<rparr>)
                 (if is_done then done_list @ [b] else done_list)))"

text \<open>
  The body of the main loop (lines 555-569). \<^verbatim>\<open>torch.stack\<close> raises on an empty list
  of Beams and on Beams whose current tokens differ in number; the stacked tokens are
  transposed and flattened, so that slot \<open>k\<close> of example \<open>b\<close> is row
  \<open>k * batch_size + b\<close> of the decoder's batch. The decoder raises on a batch of tokens
  that has not the \<open>K * batch_size\<close> rows of \<^verbatim>\<open>hn\<close> and \<^verbatim>\<open>cn\<close>.
  \<^verbatim>\<open>log_probs.view(beam_size, batch_size, -1)\<close> raises when \<open>beam_size * batch_size\<close>
  is zero; transposed, it gives example \<open>b\<close> the rows \<open>k * batch_size + b\<close>. The
  result holds the Scorer calls made, and the state and the list \<^verbatim>\<open>done\<close> unless an
  error was raised.
\<close>

definition beam_body ::
  "('c, 'v, 'e, 'a) seq2seq \<Rightarrow> 'c list \<Rightarrow> int \<Rightarrow> nat \<Rightarrow> ('v, 'a) beam_state
   \<Rightarrow> call list \<times> (error + ('v, 'a) beam_state \<times> nat list)" where
  "beam_body self h_in beam_size batch_size st =
     (let K = nat beam_size in
      if s_beam st = [] \<or>
         list_ex (\<lambda>b. length (get_current_state b) \<noteq> length (get_current_state (hd (s_beam st))))
           (s_beam st)
      then ([], Inl RuntimeError)
      else if length (get_current_state (hd (s_beam st))) \<noteq> K then ([Decode], Inl RuntimeError)
      else
        (let dec_inputs = concat (map (\<lambda>k. map (\<lambda>b. get_current_state b ! k) (s_beam st)) [0..<K]);
             out = decode_batch self h_in dec_inputs (s_hn st) (s_cn st)
         in if beam_size * int batch_size = 0 then ([Decode], Inl RuntimeError)
            else
              (let log_probs = (\<lambda>b. map (\<lambda>k. fst (out ! (k * batch_size + b))) [0..<K]);
                   st1 = st\<lparr>s_hn := map (\<lambda>(lp, h, cc, a). h) out,
                            s_cn := map (\<lambda>(lp, h, cc, a). cc) out,
                            s_attns := s_attns st @ [map (\<lambda>(lp, h, cc, a). a) out]\<rparr>
               in ([Decode], advance_all beam_size log_probs [0..<batch_size] st1 []))))"

text \<open>
  \<^verbatim>\<open>for i in range(self.max_dec_len):\<close> with the \<^verbatim>\<open>break\<close> of lines 571-572; \<open>n\<close>
  counts the iterations that are left.
\<close>

fun main_loop ::
  "('c, 'v, 'e, 'a) seq2seq \<Rightarrow> 'c list \<Rightarrow> int \<Rightarrow> nat \<Rightarrow> nat \<Rightarrow> call list \<Rightarrow> ('v, 'a) beam_state
   \<Rightarrow> call list \<times> (error + ('v, 'a) beam_state)" where
  "main_loop self h_in beam_size batch_size 0 cs st = (cs, Inr st)"
| "main_loop self h_in beam_size batch_size (Suc n) cs st =
     (case beam_body self h_in beam_size batch_size st of
        (cs', Inl err) \<Rightarrow> (cs @ cs', Inl err)
      | (cs', Inr (st', done_list)) \<Rightarrow>
          if length done_list = batch_size then (cs @ cs', Inr st')
          else main_loop self h_in beam_size batch_size n (cs @ cs') st')"

text \<open>
  Lines 575-583: for each Beam the best score and the pruned hypothesis of rank 0.
  \<^verbatim>\<open>scores[0]\<close> and \<^verbatim>\<open>ks[0]\<close> raise on a ranking without entries.
\<close>

fun back_trace :: "beam list \<Rightarrow> error + nat list list \<times> real option list" where
  "back_trace [] = Inr ([], [])"
| "back_trace (b # bs) =
     (case sort_best b of
        (s # scores, k # ks) \<Rightarrow>
          (case back_trace bs of
             Inl err \<Rightarrow> Inl err
           | Inr (all_hyp, all_scores) \<Rightarrow> Inr (prune_hyp (get_hyp b k) # all_hyp, s # all_scores))
      | _ \<Rightarrow> Inl IndexError)"

text \<open>
  Lines 512-595 of \<^verbatim>\<open>predict\<close>, the beam path: the encoding and the set-up of the beam
  (lines 512-543, \<open>beam_setup\<close>), the main loop (\<open>beam_search\<close>), the back trace
  and the return (\<open>predict_beam\<close>). \<^verbatim>\<open>repeat(beam_size, 1)\<close> raises on
  a negative count and tiles the batch \<open>beam_size\<close> times otherwise. With
  \<^verbatim>\<open>log_attn\<close> the hypotheses are converted once more: they hold Python numbers since
  line 582, and \<^verbatim>\<open>x.tolist()\<close> on a number raises \<^verbatim>\<open>AttributeError\<close>; when no
  hypothesis has a token the dictionary is built and written to \<^verbatim>\<open>log_attn.json\<close>.
  The scores of line 578 are collected and not returned (the greedy path computes no
  scores).
\<close>

definition beam_setup ::
  "('c, 'v, 'e, 'a) seq2seq \<Rightarrow> nat list list \<Rightarrow> nat list list \<Rightarrow> nat list list \<Rightarrow> nat list list
   \<Rightarrow> int \<Rightarrow> 'c list \<times> ('v, 'a) beam_state" where
  "beam_setup self src src_mask lem lem_mask beam_size =
     (let enc = encode_batch self src src_mask lem lem_mask;
          batch_size = length src;
          K = nat beam_size;
          h_in = concat (replicate K (map (\<lambda>(c, h, cc). c) enc));
          hn = concat (replicate K (map (\<lambda>(c, h, cc). h) enc));
          cn = concat (replicate K (map (\<lambda>(c, h, cc). cc) enc));
          beam = replicate batch_size (new_beam K)
      in (h_in, \<lparr>s_hn = hn, s_cn = cn, s_beam = beam, s_attns = []\<rparr>))"

definition beam_search ::
  "('c, 'v, 'e, 'a) seq2seq \<Rightarrow> nat list list \<Rightarrow> nat list list \<Rightarrow> nat list list \<Rightarrow> nat list list
   \<Rightarrow> int \<Rightarrow> call list \<times> (error + ('v, 'a) beam_state)" where
  "beam_search self src src_mask lem lem_mask beam_size =
     (if \<not> same_batch src src_mask lem lem_mask
      then (mismatch_calls src src_mask, Inl RuntimeError)
      else if beam_size < 0 then ([Encode, Encode], Inl RuntimeError)
      else
        (case beam_setup self src src_mask lem lem_mask beam_size of
           (h_in, st) \<Rightarrow>
             main_loop self h_in beam_size (length src) (nat (max_dec_len self)) [Encode, Encode] st))"

definition predict_beam ::
  "('c, 'v, 'e, 'a) seq2seq \<Rightarrow> nat list list \<Rightarrow> nat list list \<Rightarrow> nat list list \<Rightarrow> nat list list
   \<Rightarrow> int \<Rightarrow> bool \<Rightarrow> ('e, 'a) outcome" where
  "predict_beam self src src_mask lem lem_mask beam_size log_attn =
     (let edit_logits =
            edit_logits_of self (map (\<lambda>(c, h, cc). h) (encode_batch self src src_mask lem lem_mask))
      in case beam_search self src src_mask lem lem_mask beam_size of
           (cs, Inl err) \<Rightarrow> \<lparr>calls = cs, dumped = None, ret = Inl err\<rparr>
         | (cs, Inr st) \<Rightarrow>
             (case back_trace (s_beam st) of
                Inl err \<Rightarrow> \<lparr>calls = cs, dumped = None, ret = Inl err\<rparr>
              | Inr (all_hyp, all_scores) \<Rightarrow>
                  if log_attn then
                    (if list_ex (\<lambda>hyp. hyp \<noteq> []) all_hyp
                     then \<lparr>calls = cs, dumped = None, ret = Inl AttributeError\<rparr>
                     else \<lparr>calls = cs,
                           dumped = Some \<lparr>la_src = src, la_lem = lem, la_attns = s_attns st,
                                          la_all_hyp = all_hyp\<rparr>,
                           ret = Inr (Ret2 all_hyp edit_logits)\<rparr>)
                  else \<lparr>calls = cs, dumped = None, ret = Inr (Ret2 all_hyp edit_logits)\<rparr>))"

text \<open>
  \<^verbatim>\<open>
  def predict(self, src, src_mask, lem=None, lem_mask=None, beam_size=5, log_attn=False):
      """ Predict with beam search. """
      if beam_size == 1:
          return self.predict_greedy(src, src_mask, lem, lem_mask, log_attn)
      ...
  \<close>
\<close>

definition predict ::
  "('c, 'v, 'e, 'a) seq2seq \<Rightarrow> nat list list \<Rightarrow> nat list list \<Rightarrow> nat list list \<Rightarrow> nat list list
   \<Rightarrow> int \<Rightarrow> bool \<Rightarrow> ('e, 'a) outcome" where
  "predict self src src_mask lem lem_mask beam_size log_attn =
     (if beam_size = 1 then predict_greedy self src src_mask lem lem_mask log_attn
      else predict_beam self src src_mask lem lem_mask beam_size log_attn)"

subsection \<open>Notions used in the statements\<close>

text \<open>
  The state and the list \<^verbatim>\<open>done\<close> after iteration \<open>t\<close> of the body of the main loop
  (iterations are counted from 0), had the loop not been left before.
\<close>

fun body_iter ::
  "('c, 'v, 'e, 'a) seq2seq \<Rightarrow> 'c list \<Rightarrow> int \<Rightarrow> nat \<Rightarrow> nat \<Rightarrow> ('v, 'a) beam_state
   \<Rightarrow> error + ('v, 'a) beam_state \<times> nat list" where
  "body_iter self h_in beam_size batch_size 0 st = snd (beam_body self h_in beam_size batch_size st)"
| "body_iter self h_in beam_size batch_size (Suc t) st =
     (case snd (beam_body self h_in beam_size batch_size st) of
        Inl err \<Rightarrow> Inl err
      | Inr (st', done_list) \<Rightarrow> body_iter self h_in beam_size batch_size t st')"

text \<open>The edit logits in a returned value.\<close>

fun ret_edit_logits :: "('e, 'a) retval \<Rightarrow> 'e list option" where
  "ret_edit_logits (Ret2 all_hyp edit_logits) = edit_logits"
| "ret_edit_logits (Ret3 output_seqs edit_logits log_attns) = edit_logits"

subsection \<open>The greedy path against the beam path of width 1\<close>

text \<open>
  A Beam of width 1 that holds the token sequence \<open>ts\<close>: one score, one token per row,
  every backpointer 0. The relation \<open>sim\<close> ties the variables of the greedy loop to
  those of the main loop after the same number of steps: an example is done in both or
  in neither; while it is live, its Beam holds the greedy output, its rows of \<^verbatim>\<open>hn\<close>
  and \<^verbatim>\<open>cn\<close> agree and its current token is the greedy decoder input; once it is
  done, its Beam holds the greedy output followed by \<^verbatim>\<open>EOS\<close>.
\<close>

definition lane1 :: "beam \<Rightarrow> nat list \<Rightarrow> bool" where
  "lane1 b ts =
     (b_width b = 1 \<and> (\<exists>sc. b_scores b = [Some sc]) \<and>
      b_tokens b = map (\<lambda>t. [t]) ts \<and> b_backpointers b = map (\<lambda>t. [0]) ts)"

definition lane_sim :: "('v, 'a) greedy_state \<Rightarrow> ('v, 'a) beam_state \<Rightarrow> nat \<Rightarrow> bool" where
  "lane_sim g s i =
     (b_done (s_beam s ! i) = g_done g ! i \<and>
      (if g_done g ! i then lane1 (s_beam s ! i) (g_output_seqs g ! i @ [EOS_ID])
       else lane1 (s_beam s ! i) (g_output_seqs g ! i) \<and>
            s_hn s ! i = g_hn g ! i \<and> s_cn s ! i = g_cn g ! i \<and>
            get_current_state (s_beam s ! i) = [g_dec_inputs g ! i]))"

definition sim :: "nat \<Rightarrow> ('v, 'a) greedy_state \<Rightarrow> ('v, 'a) beam_state \<Rightarrow> bool" where
  "sim B g s =
     (length (g_hn g) = B \<and> length (g_cn g) = B \<and> length (g_dec_inputs g) = B \<and>
      length (g_done g) = B \<and> length (g_output_seqs g) = B \<and>
      length (s_hn s) = B \<and> length (s_cn s) = B \<and> length (s_beam s) = B \<and>
      g_total_done g = length (filter (\<lambda>d. d) (g_done g)) \<and>
      (\<forall>i < B. lane_sim g s i))"

section \<open>Properties of \<^verbatim>\<open>update_state\<close>\<close>

lemma view_beam_error:
  assumes "0 < row_dim e" and "\<not> beam_size dvd int (length e)"
  shows "view_beam beam_size e = Inl (if beam_size = 0 then ZeroDivisionError else RuntimeError)"
proof (cases "beam_size \<le> 0")
  case True
  then show ?thesis by (simp add: view_beam_def Let_def)
next
  case False
  have "beam_size * (int (length e) div beam_size) \<noteq> int (length e)"
    using assms(2) by (metis dvd_triv_left)
  with assms(1) False show ?thesis by (simp add: view_beam_def Let_def)
qed

lemma update_state_one_error:
  assumes "0 < row_dim e" and "\<not> beam_size dvd int (length e)"
  shows "update_state_one e idx positions beam_size =
           Inl (if beam_size = 0 then ZeroDivisionError else RuntimeError)"
  by (simp add: update_state_one_def view_beam_error [OF assms])

lemma update_state_raises_mem:
  assumes "e \<in> set states" and "isl (update_state_one e idx positions beam_size)"
  shows "\<exists>err. update_state states idx positions beam_size = Inl err"
  using assms
proof (induction states)
  case Nil
  then show ?case by simp
next
  case (Cons a states)
  show ?case
  proof (cases "update_state_one a idx positions beam_size")
    case (Inl err)
    then show ?thesis by simp
  next
    case (Inr a')
    with Cons.prems have "a \<noteq> e" by auto
    with Cons obtain err where "update_state states idx positions beam_size = Inl err"
      by auto
    with Inr show ?thesis by simp
  qed
qed

lemma update_state_Inr_nth:
  "update_state states idx positions beam_size = Inr states' \<Longrightarrow>
   length states' = length states \<and>
   (\<forall>j < length states. update_state_one (states ! j) idx positions beam_size = Inr (states' ! j))"
proof (induction states arbitrary: states')
  case Nil
  then show ?case by simp
next
  case (Cons a states)
  from Cons.prems obtain a' rest where a: "update_state_one a idx positions beam_size = Inr a'"
    and r: "update_state states idx positions beam_size = Inr rest" and s: "states' = a' # rest"
    by (auto split: sum.splits)
  from Cons.IH [OF r] a s show ?case by (auto simp: nth_Cons split: nat.splits)
qed

lemma fold_update_empty_rows:
  assumes "\<forall>r \<in> set e. r = []" and "\<forall>k \<in> set ks. f k = []"
  shows "fold (\<lambda>k acc. acc[g k := f k]) ks e = e"
  using assms(2)
proof (induction ks)
  case Nil
  show ?case by simp
next
  case (Cons k ks)
  have "e[g k := []] = e"
  proof (cases "g k < length e")
    case True
    with assms(1) have "e ! g k = []" by simp
    then show ?thesis by (metis list_update_id)
  next
    case False
    then have "length e \<le> g k" by simp
    then show ?thesis by (rule list_update_beyond)
  qed
  with Cons show ?case by simp
qed

lemma view_beam_rows:
  assumes "view_beam beam_size e = Inr m"
  shows "0 < beam_size \<and> m = length e div nat beam_size"
  using assms
  by (auto simp: view_beam_def Let_def nat_div_distrib split: if_splits)

lemma update_state_one_no_elements:
  assumes rows: "\<forall>r \<in> set e. r = []"
    and run: "update_state_one e idx positions beam_size = Inr e'"
  shows "e' = e"
proof -
  from run obtain m where vb: "view_beam beam_size e = Inr m"
    by (cases "view_beam beam_size e") (auto simp: update_state_one_def)
  from view_beam_rows [OF vb] have pos: "0 < beam_size" and m: "m = length e div nat beam_size"
    by simp_all
  from run vb have idx: "idx < m" and ps: "\<forall>p \<in> set positions. int p < beam_size"
    by (auto simp: update_state_one_def Let_def list_ex_iff split: if_splits)
  have inr: "p * m + idx < length e" if "p \<in> set positions" for p
  proof -
    from ps that pos have "p < nat beam_size" by auto
    then have "Suc p * m \<le> nat beam_size * m" by (intro mult_le_mono1) simp
    also have "\<dots> \<le> length e" unfolding m by (simp add: mult.commute)
    finally show ?thesis using idx by simp
  qed
  let ?sel = "map (\<lambda>p. e ! (p * m + idx)) positions"
  have sel: "\<forall>x \<in> set ?sel. x = []" using inr rows by auto
  have a: "\<forall>k \<in> set [0..<nat beam_size]. ?sel ! k = []" if "length ?sel = nat beam_size"
    using sel that by (metis atLeastLessThan_iff nth_mem set_upt)
  have b: "\<forall>k \<in> set [0..<nat beam_size]. ?sel ! 0 = []" if "length ?sel = 1"
    using sel that by (metis nth_mem zero_less_one)
  from run vb idx ps show ?thesis
    using fold_update_empty_rows [OF rows a, of "\<lambda>k. k * m + idx"]
      fold_update_empty_rows [OF rows b, of "\<lambda>k. k * m + idx"]
    by (auto simp: update_state_one_def Let_def list_ex_iff split: if_splits)
qed

text \<open>
  C5. A state tensor that has elements (rows of non-zero width) and whose number of rows
  is not a multiple of \<open>beam_size\<close> makes \<open>update_state\<close> raise, wherever it stands
  in the tuple and whatever the example index and the positions are. The error that
  the tensor itself raises is \<^verbatim>\<open>ZeroDivisionError\<close> for \<open>beam_size = 0\<close> and the
  \<^verbatim>\<open>RuntimeError\<close> of \<^verbatim>\<open>view\<close> otherwise (an earlier tensor of the tuple may raise
  first, with an error of its own). The only tensors of such a shape that \<^verbatim>\<open>view\<close>
  accepts are those without elements, rows of width zero: a call that returns hands them
  back as they were. The decoder's \<^verbatim>\<open>hn\<close> and \<^verbatim>\<open>cn\<close>, the tensors of the call in
  line 569, have rows of the width of the hidden state.
\<close>

theorem update_state_indivisible_raises:
  assumes "e \<in> set states" and "\<not> beam_size dvd int (length e)"
    and "\<forall>r \<in> set e. length r = row_dim e"
  shows "(0 < row_dim e \<longrightarrow>
            (\<exists>err. update_state states idx positions beam_size = Inl err) \<and>
            update_state [e] idx positions beam_size =
              Inl (if beam_size = 0 then ZeroDivisionError else RuntimeError)) \<and>
         (row_dim e = 0 \<longrightarrow>
            (\<forall>states'. update_state states idx positions beam_size = Inr states' \<longrightarrow>
               length states' = length states \<and>
               (\<forall>j < length states. states ! j = e \<longrightarrow> states' ! j = e)))"
proof (intro conjI impI allI)
  assume w: "0 < row_dim e"
  note err = update_state_one_error [OF w assms(2), of idx positions]
  from err have "isl (update_state_one e idx positions beam_size)" by simp
  from update_state_raises_mem [OF assms(1) this]
  show "\<exists>err. update_state states idx positions beam_size = Inl err" .
  from err show "update_state [e] idx positions beam_size =
      Inl (if beam_size = 0 then ZeroDivisionError else RuntimeError)"
    by simp
next
  fix states'
  assume w: "row_dim e = 0" and run: "update_state states idx positions beam_size = Inr states'"
  from update_state_Inr_nth [OF run] show "length states' = length states" by simp
next
  fix states' j
  assume w: "row_dim e = 0" and run: "update_state states idx positions beam_size = Inr states'"
    and j: "j < length states" and e: "states ! j = e"
  from w assms(3) have rows: "\<forall>r \<in> set e. r = []" by simp
  from update_state_Inr_nth [OF run] j e
  have "update_state_one e idx positions beam_size = Inr (states' ! j)" by auto
  from update_state_one_no_elements [OF rows this] show "states' ! j = e" .
qed

theorem update_state_indivisible_raises_witness:
  "[[1], [2], [3]] \<in> set [[[1], [2], [3], [4]], [[1], [2], [3 :: nat]]] \<and>
   \<not> (2 :: int) dvd int (length [[1], [2], [3 :: nat]]) \<and>
   map length [[1], [2], [3 :: nat]] = replicate 3 (row_dim [[1], [2], [3 :: nat]]) \<and>
   0 < row_dim [[1], [2], [3 :: nat]] \<and>
   update_state [[[1], [2], [3], [4]], [[1], [2], [3 :: nat]]] 0 [1, 0] 2 = Inl RuntimeError \<and>
   update_state [[[1], [2], [3 :: nat]]] 0 [1, 0] 2 = Inl RuntimeError \<and>
   update_state [[[1], [2], [3 :: nat]]] 0 [1, 0] 0 = Inl ZeroDivisionError \<and>
   update_state [[[1], [2], [3], [4 :: nat]]] 0 [1, 0] 2 = Inr [[[3], [2], [1], [4]]] \<and>
   row_dim [[], [], [] :: nat list] = 0 \<and>
   update_state [[[], [], [] :: nat list]] 0 [0, 1] 2 = Inr [[[], [], []]]"
proof -
  let ?e = "[[1], [2], [3 :: nat]]"
  let ?states = "[[[1], [2], [3], [4]], ?e]"
  let ?z = "[[], [], [] :: nat list]"
  have mem: "?e \<in> set ?states" by simp
  have nd: "\<not> (2 :: int) dvd int (length ?e)" by simp
  have nd0: "\<not> (0 :: int) dvd int (length ?e)" by simp
  have rows: "\<forall>r \<in> set ?e. length r = row_dim ?e" by (simp add: row_dim_def)
  have w: "0 < row_dim ?e" by (simp add: row_dim_def)
  have widths: "map length ?e = replicate 3 (row_dim ?e)"
    by (simp add: row_dim_def numeral_3_eq_3)
  have ok: "update_state [[[1], [2], [3], [4 :: nat]]] 0 [1, 0] 2 = Inr [[[3], [2], [1], [4]]]"
    by code_simp
  have run: "update_state ?states 0 [1, 0] 2 = Inl RuntimeError" by code_simp
  have zmem: "?z \<in> set [?z]" by simp
  have znd: "\<not> (2 :: int) dvd int (length ?z)" by simp
  have zrows: "\<forall>r \<in> set ?z. length r = row_dim ?z" by (simp add: row_dim_def)
  have zw: "row_dim ?z = 0" by (simp add: row_dim_def)
  have zrun: "\<not> isl (update_state [?z] 0 [0, 1] 2)" by code_simp
  then obtain states' where z1: "update_state [?z] 0 [0, 1] 2 = Inr states'"
    by (cases "update_state [?z] 0 [0, 1] 2") simp_all
  from update_state_indivisible_raises [OF zmem znd zrows, of 0 "[0, 1]"] zw z1
  have "length states' = 1" and "states' ! 0 = ?z" by simp_all
  then have "states' = [?z]" by (cases states') simp_all
  with z1 have z: "update_state [?z] 0 [0, 1] 2 = Inr [?z]" by simp
  from update_state_indivisible_raises [OF mem nd rows, of 0 "[1, 0]"]
    update_state_indivisible_raises [OF _ nd0 rows, of "[?e]" 0 "[1, 0]"]
    w mem nd widths run ok zw z
  show ?thesis by simp
qed

section \<open>Properties of \<^verbatim>\<open>predict_greedy\<close>\<close>


lemma collect_token_lengths:
  "length (g_done (collect_token preds i st)) = length (g_done st)"
  "length (g_output_seqs (collect_token preds i st)) = length (g_output_seqs st)"
  by (simp_all add: collect_token_def Let_def)

lemma fold_collect_token_lengths:
  "length (g_done (fold (collect_token preds) is st)) = length (g_done st) \<and>
   length (g_output_seqs (fold (collect_token preds) is st)) = length (g_output_seqs st)"
  by (induction "is" arbitrary: st) (simp_all add: collect_token_lengths)

lemma collect_token_other:
  "i \<noteq> j \<Longrightarrow> g_done (collect_token preds j st) ! i = g_done st ! i"
  "i \<noteq> j \<Longrightarrow> g_output_seqs (collect_token preds j st) ! i = g_output_seqs st ! i"
  by (simp_all add: collect_token_def Let_def)

lemma fold_collect_token_notin:
  "i \<notin> set is \<Longrightarrow>
   g_done (fold (collect_token preds) is st) ! i = g_done st ! i \<and>
   g_output_seqs (fold (collect_token preds) is st) ! i = g_output_seqs st ! i"
  by (induction "is" arbitrary: st) (auto simp: collect_token_other)

lemma collect_token_same:
  assumes "i < length (g_done st)" "i < length (g_output_seqs st)"
  shows "g_done (collect_token preds i st) ! i = (g_done st ! i \<or> preds ! i = EOS_ID)"
    and "g_output_seqs (collect_token preds i st) ! i =
         (if g_done st ! i \<or> preds ! i = EOS_ID then g_output_seqs st ! i
          else g_output_seqs st ! i @ [preds ! i])"
  using assms by (auto simp: collect_token_def Let_def)

lemma fold_collect_token_nth:
  assumes "distinct is" "i \<in> set is" "i < length (g_done st)" "i < length (g_output_seqs st)"
  shows "g_done (fold (collect_token preds) is st) ! i = (g_done st ! i \<or> preds ! i = EOS_ID) \<and>
         g_output_seqs (fold (collect_token preds) is st) ! i =
         (if g_done st ! i \<or> preds ! i = EOS_ID then g_output_seqs st ! i
          else g_output_seqs st ! i @ [preds ! i])"
  using assms
proof (induction "is" arbitrary: st)
  case Nil
  then show ?case by simp
next
  case (Cons j js)
  show ?case
  proof (cases "i = j")
    case True
    with Cons.prems have "i \<notin> set js" by simp
    from fold_collect_token_notin [OF this, of preds "collect_token preds j st"]
    show ?thesis using True Cons.prems collect_token_same [of i st preds] by simp
  next
    case False
    with Cons.prems have "i \<in> set js" "distinct js" by auto
    from Cons.IH [OF this(2,1), of "collect_token preds j st"]
    show ?thesis using False Cons.prems by (simp add: collect_token_lengths collect_token_other)
  qed
qed

lemma fold_collect_token_fields:
  "g_hn (fold (collect_token preds) is st) = g_hn st"
  "g_cn (fold (collect_token preds) is st) = g_cn st"
  "g_dec_inputs (fold (collect_token preds) is st) = g_dec_inputs st"
  "g_attns (fold (collect_token preds) is st) = g_attns st"
  by (induction "is" arbitrary: st) (simp_all add: collect_token_def Let_def)

lemma greedy_body_Inr:
  assumes "greedy_body self ctx batch_size st = Inr st'"
  obtains st1 where "st' = fold (collect_token (greedy_preds self ctx st)) [0..<batch_size] st1"
    and "g_done st1 = g_done st" and "g_output_seqs st1 = g_output_seqs st"
    and "g_total_done st1 = g_total_done st"
    and "g_dec_inputs st1 = greedy_preds self ctx st"
proof -
  let ?out = "decode_batch self ctx (g_dec_inputs st) (g_hn st) (g_cn st)"
  let ?st1 = "st\<lparr>g_hn := map (\<lambda>(lp, h, cc, a). h) ?out,
                  g_cn := map (\<lambda>(lp, h, cc, a). cc) ?out,
                  g_dec_inputs := greedy_preds self ctx st,
                  g_max_len := g_max_len st + 1,
                  g_attns := g_attns st @ [map (\<lambda>(lp, h, cc, a). a) ?out]\<rparr>"
  from assms have "st' = fold (collect_token (greedy_preds self ctx st)) [0..<batch_size] ?st1"
    unfolding greedy_body_def greedy_preds_def Let_def by (simp split: if_splits)
  then show ?thesis by (rule that) simp_all
qed

lemma greedy_body_nth:
  assumes "greedy_body self ctx batch_size st = Inr st'"
    and "i < batch_size" "length (g_done st) = batch_size" "length (g_output_seqs st) = batch_size"
  shows "g_done st' ! i = (g_done st ! i \<or> greedy_preds self ctx st ! i = EOS_ID)"
    and "g_output_seqs st' ! i =
         (if g_done st ! i \<or> greedy_preds self ctx st ! i = EOS_ID then g_output_seqs st ! i
          else g_output_seqs st ! i @ [greedy_preds self ctx st ! i])"
proof -
  from assms(1) obtain st1 where st1:
    "st' = fold (collect_token (greedy_preds self ctx st)) [0..<batch_size] st1"
    "g_done st1 = g_done st" "g_output_seqs st1 = g_output_seqs st"
    by (rule greedy_body_Inr)
  have "distinct [0..<batch_size]" "i \<in> set [0..<batch_size]"
    "i < length (g_done st1)" "i < length (g_output_seqs st1)"
    using assms st1 by simp_all
  from fold_collect_token_nth [OF this, of "greedy_preds self ctx st"] st1
  show "g_done st' ! i = (g_done st ! i \<or> greedy_preds self ctx st ! i = EOS_ID)"
    and "g_output_seqs st' ! i =
         (if g_done st ! i \<or> greedy_preds self ctx st ! i = EOS_ID then g_output_seqs st ! i
          else g_output_seqs st ! i @ [greedy_preds self ctx st ! i])"
    by simp_all
qed

lemma greedy_body_lengths:
  assumes "greedy_body self ctx batch_size st = Inr st'"
  shows "length (g_done st') = length (g_done st)"
    and "length (g_output_seqs st') = length (g_output_seqs st)"
proof -
  from assms(1) obtain st1 where st1:
    "st' = fold (collect_token (greedy_preds self ctx st)) [0..<batch_size] st1"
    "g_done st1 = g_done st" "g_output_seqs st1 = g_output_seqs st"
    by (rule greedy_body_Inr)
  then show "length (g_done st') = length (g_done st)"
    and "length (g_output_seqs st') = length (g_output_seqs st)"
    by (simp_all add: fold_collect_token_lengths)
qed

lemma greedy_body_inv:
  assumes "greedy_body self ctx batch_size st = Inr st'"
    and "greedy_inv self batch_size st" and "int (g_max_len st) < max_dec_len self"
  shows "greedy_inv self batch_size st'"
  unfolding greedy_inv_def
proof (intro conjI allI impI)
  show "length (g_done st') = batch_size" "length (g_output_seqs st') = batch_size"
    using assms greedy_body_lengths [OF assms(1)] by (simp_all add: greedy_inv_def)
  show "int (g_max_len st') \<le> max 0 (max_dec_len self)"
    using assms(3) greedy_body_max_len [OF assms(1)] by simp
next
  fix i assume i: "i < batch_size"
  from assms(2) i have old: "EOS_ID \<notin> set (g_output_seqs st ! i)"
    "length (g_output_seqs st ! i) \<le> g_max_len st"
    and len: "length (g_done st) = batch_size" "length (g_output_seqs st) = batch_size"
    by (simp_all add: greedy_inv_def)
  note nth = greedy_body_nth(2) [OF assms(1) i len]
  show "EOS_ID \<notin> set (g_output_seqs st' ! i)"
    using old nth by (auto split: if_splits)
  show "length (g_output_seqs st' ! i) \<le> g_max_len st'"
    using old nth greedy_body_max_len [OF assms(1)] by (auto split: if_splits)
qed

lemma greedy_loop_inv:
  "greedy_inv self batch_size st \<Longrightarrow> greedy_loop self ctx batch_size cs st = (cs', Inr st') \<Longrightarrow>
   greedy_inv self batch_size st'"
proof (induction self ctx batch_size cs st rule: greedy_loop.induct)
  case (1 self ctx batch_size cs st)
  show ?case
  proof (cases "g_total_done st < batch_size \<and> int (g_max_len st) < max_dec_len self")
    case False
    with "1.prems" show ?thesis by (simp add: greedy_loop.simps [of self ctx batch_size cs st])
  next
    case True
    show ?thesis
    proof (cases "greedy_body self ctx batch_size st")
      case (Inl err)
      with True "1.prems" show ?thesis by (simp add: greedy_loop.simps [of self ctx batch_size cs st])
    next
      case (Inr st1)
      with True "1.prems" have "greedy_loop self ctx batch_size (cs @ [Decode]) st1 = (cs', Inr st')"
        by (simp add: greedy_loop.simps [of self ctx batch_size cs st])
      moreover have "greedy_inv self batch_size st1"
        using greedy_body_inv [OF Inr "1.prems"(1)] True by simp
      ultimately show ?thesis using "1.IH" [OF True Inr] by simp
    qed
  qed
qed

lemma greedy_init_inv: "greedy_inv self batch_size (greedy_init batch_size hn cn)"
  by (simp add: greedy_inv_def greedy_init_def)


lemma greedy_body_frozen:
  assumes "greedy_body self ctx batch_size st = Inr st'"
    and "i < batch_size" "length (g_done st) = batch_size" "length (g_output_seqs st) = batch_size"
    and "g_done st ! i \<or> greedy_preds self ctx st ! i = EOS_ID"
  shows "g_done st' ! i \<and> g_output_seqs st' ! i = g_output_seqs st ! i"
  using greedy_body_nth [OF assms(1-4)] assms(5) by simp

lemma greedy_loop_frozen:
  "greedy_loop self ctx batch_size cs st = (cs', Inr st') \<Longrightarrow> i < batch_size \<Longrightarrow>
   length (g_done st) = batch_size \<Longrightarrow> length (g_output_seqs st) = batch_size \<Longrightarrow>
   g_done st ! i \<Longrightarrow> g_done st' ! i \<and> g_output_seqs st' ! i = g_output_seqs st ! i"
proof (induction self ctx batch_size cs st rule: greedy_loop.induct)
  case (1 self ctx batch_size cs st)
  show ?case
  proof (cases "g_total_done st < batch_size \<and> int (g_max_len st) < max_dec_len self")
    case False
    with "1.prems" show ?thesis by (simp add: greedy_loop.simps [of self ctx batch_size cs st])
  next
    case True
    show ?thesis
    proof (cases "greedy_body self ctx batch_size st")
      case (Inl err)
      with True "1.prems" show ?thesis by (simp add: greedy_loop.simps [of self ctx batch_size cs st])
    next
      case (Inr st1)
      with True "1.prems" have run: "greedy_loop self ctx batch_size (cs @ [Decode]) st1 = (cs', Inr st')"
        by (simp add: greedy_loop.simps [of self ctx batch_size cs st])
      have keep: "g_done st1 ! i \<and> g_output_seqs st1 ! i = g_output_seqs st ! i"
        using greedy_body_frozen [OF Inr "1.prems"(2,3,4)] "1.prems"(5) by simp
      have len: "length (g_done st1) = batch_size" "length (g_output_seqs st1) = batch_size"
        using greedy_body_lengths [OF Inr] "1.prems" by simp_all
      from "1.IH" [OF True Inr run "1.prems"(2) len] keep show ?thesis by simp
    qed
  qed
qed

text \<open>
  C10 (amended). Every sequence that \<open>predict_greedy\<close> returns is free of \<^verbatim>\<open>EOS\<close> and
  no longer than \<open>max_dec_len\<close> (than zero, when \<open>max_dec_len\<close> is negative). In
  every iteration of the loop an example that is done already, or whose prediction in
  this iteration is \<^verbatim>\<open>EOS\<close>, is done afterwards and has nothing appended to its
  output; and from a state in which an example is done, the rest of the loop, whatever
  number of decoder steps it still makes for the other examples, leaves that example's
  output as it is. Nothing keeps \<^verbatim>\<open>SOS\<close> out of the output.
\<close>

theorem predict_greedy_output_seqs:
  assumes "ret (predict_greedy self src src_mask lem lem_mask log_attn) = Inr (Ret3 output_seqs e la)"
  shows "(\<forall>seq \<in> set output_seqs. EOS_ID \<notin> set seq \<and> int (length seq) \<le> max 0 (max_dec_len self)) \<and>
         (\<forall>ctx st st' i. greedy_body self ctx (length src) st = Inr st' \<and> i < length src \<and>
              length (g_done st) = length src \<and> length (g_output_seqs st) = length src \<and>
              (g_done st ! i \<or> greedy_preds self ctx st ! i = EOS_ID)
              \<longrightarrow> g_done st' ! i \<and> g_output_seqs st' ! i = g_output_seqs st ! i) \<and>
         (\<forall>ctx cs cs' st st' i. greedy_loop self ctx (length src) cs st = (cs', Inr st') \<and> i < length src \<and>
              length (g_done st) = length src \<and> length (g_output_seqs st) = length src \<and>
              g_done st ! i
              \<longrightarrow> g_done st' ! i \<and> g_output_seqs st' ! i = g_output_seqs st ! i)"
proof (intro conjI ballI allI impI)
  fix seq assume seq: "seq \<in> set output_seqs"
  let ?enc = "encode_batch self src src_mask lem lem_mask"
  let ?ctx = "map (\<lambda>(c, h, cc). c) ?enc"
  let ?init = "greedy_init (length src) (map (\<lambda>(c, h, cc). h) ?enc) (map (\<lambda>(c, h, cc). cc) ?enc)"
  obtain cs r where run: "greedy_loop self ?ctx (length src) [Encode, Encode] ?init = (cs, r)"
    by (cases "greedy_loop self ?ctx (length src) [Encode, Encode] ?init")
  from assms run obtain st where r: "r = Inr st" and out: "output_seqs = g_output_seqs st"
    by (cases r) (auto simp: predict_greedy_def Let_def split: if_splits)
  from greedy_loop_inv [OF greedy_init_inv run [unfolded r]]
  have inv: "greedy_inv self (length src) st" .
  from seq out inv obtain i where i: "i < length src" "seq = g_output_seqs st ! i"
    by (auto simp: greedy_inv_def in_set_conv_nth)
  with inv show "EOS_ID \<notin> set seq" "int (length seq) \<le> max 0 (max_dec_len self)"
    by (auto simp: greedy_inv_def)
next
  fix ctx st st' i
  assume "greedy_body self ctx (length src) st = Inr st' \<and> i < length src \<and>
          length (g_done st) = length src \<and> length (g_output_seqs st) = length src \<and>
          (g_done st ! i \<or> greedy_preds self ctx st ! i = EOS_ID)"
  then show "g_done st' ! i" "g_output_seqs st' ! i = g_output_seqs st ! i"
    using greedy_body_frozen [of self ctx "length src" st st' i] by simp_all
next
  fix ctx cs cs' st st' i
  assume "greedy_loop self ctx (length src) cs st = (cs', Inr st') \<and> i < length src \<and>
          length (g_done st) = length src \<and> length (g_output_seqs st) = length src \<and> g_done st ! i"
  then show "g_done st' ! i" "g_output_seqs st' ! i = g_output_seqs st ! i"
    using greedy_loop_frozen [of self ctx "length src" cs st cs' st' i] by simp_all
qed

theorem predict_greedy_output_seqs_witness:
  "ret (predict_greedy (spell 4) [[3, 3], [4, 0]] [[0, 0], [0, 1]] [[1, 2, 0], [1, 2, 0]]
          [[0, 0, 1], [0, 0, 1]] False) = Inr (Ret3 [[3, 3], [4]] (Some [1, 1]) None) \<and>
   EOS_ID \<notin> set [3, 3] \<and> EOS_ID \<notin> set [4] \<and>
   int (length [3, 3 :: nat]) \<le> max 0 (max_dec_len (spell 4))"
proof -
  have run: "ret (predict_greedy (spell 4) [[3, 3], [4, 0]] [[0, 0], [0, 1]] [[1, 2, 0], [1, 2, 0]]
          [[0, 0, 1], [0, 0, 1]] False) = Inr (Ret3 [[3, 3], [4]] (Some [1, 1]) None)"
    by code_simp
  from predict_greedy_output_seqs [OF run] show ?thesis
    using run by simp
qed

text \<open>
  C10 as stated fails: the loop of \<open>predict_greedy\<close> appends every predicted token
  other than \<^verbatim>\<open>EOS\<close>. On a source whose first token is \<^verbatim>\<open>SOS\<close> the Scorer
  \<open>spell\<close> predicts \<^verbatim>\<open>SOS\<close> first, and the output holds it.
\<close>

theorem predict_greedy_sos_counterexample:
  "ret (predict_greedy (spell 4) [[1]] [[0]] [[1, 2, 0]] [[0, 0, 1]] False) =
     Inr (Ret3 [[SOS_ID]] (Some [1]) None)"
  by code_simp

section \<open>Properties of \<^verbatim>\<open>forward\<close>\<close>

lemma row_dim_uniform: "t \<noteq> [] \<Longrightarrow> \<forall>r \<in> set t. length r = n \<Longrightarrow> row_dim t = n"
  by (cases t) (simp_all add: row_dim_def)

lemma masked_assign_none:
  "length hide = length t \<Longrightarrow> \<not> list_ex (\<lambda>h. h) hide \<Longrightarrow>
   map (\<lambda>(h, r). if h then stump else r) (zip hide t) = t"
  by (induction hide t rule: list_induct2) simp_all

lemma map_zip_upt:
  "map (\<lambda>(h, r). if h then stump else r) (zip (map P [0..<length t]) t) =
   map (\<lambda>i. if P i then stump else t ! i) [0..<length t]"
  by (rule nth_equalityI) simp_all

text \<open>
  C9. With a lexicon and a positive \<open>lexicon_dropout\<close>, on buffers of \<open>n \<ge> 3\<close>
  columns \<open>forward\<close> overwrites, in the caller's \<^verbatim>\<open>lem\<close> and \<^verbatim>\<open>lem_mask\<close>, every
  row whose draw is below \<open>lexicon_dropout\<close> with the stub sequence and the stub mask,
  and leaves the other rows; so whenever a selected row differs from the stub, the
  caller's \<^verbatim>\<open>lem\<close> is not what it was before the call.
\<close>

theorem forward_lexicon_dropout_mutates:
  assumes "is_lexicon self" and "0 < lexicon_dropout self"
    and "length lem_mask = length lem"
    and "\<forall>r \<in> set lem. length r = n" and "\<forall>r \<in> set lem_mask. length r = n" and "3 \<le> n"
  shows "forward_lexicon_dropout self u lem lem_mask =
           (None,
            map (\<lambda>i. if u i < lexicon_dropout self then lem_stump n else lem ! i) [0..<length lem],
            map (\<lambda>i. if u i < lexicon_dropout self then lem_mask_stump n else lem_mask ! i) [0..<length lem]) \<and>
         (\<forall>i < length lem. u i < lexicon_dropout self \<and> lem ! i \<noteq> lem_stump n
            \<longrightarrow> fst (snd (forward_lexicon_dropout self u lem lem_mask)) \<noteq> lem)"
proof -
  let ?P = "\<lambda>i. u i < lexicon_dropout self"
  let ?hide = "map ?P [0..<length lem]"
  have eq: "forward_lexicon_dropout self u lem lem_mask =
           (None, map (\<lambda>i. if ?P i then lem_stump n else lem ! i) [0..<length lem],
            map (\<lambda>i. if ?P i then lem_mask_stump n else lem_mask ! i) [0..<length lem])"
  proof (cases "list_ex (\<lambda>h. h) ?hide")
    case False
    have "map (\<lambda>i. if ?P i then lem_stump n else lem ! i) [0..<length lem] = lem"
      using masked_assign_none [of ?hide lem "lem_stump n"] False map_zip_upt [of "lem_stump n" ?P lem]
      by simp
    moreover have "map (\<lambda>i. if ?P i then lem_mask_stump n else lem_mask ! i) [0..<length lem] = lem_mask"
      using masked_assign_none [of ?hide lem_mask "lem_mask_stump n"] False assms(3)
        map_zip_upt [of "lem_mask_stump n" ?P lem_mask]
      by simp
    ultimately show ?thesis using False assms(1,2)
      by (simp add: forward_lexicon_dropout_def Let_def)
  next
    case True
    then have ne: "lem \<noteq> []" "lem_mask \<noteq> []" using assms(3) by (auto simp: list_ex_iff)
    have rd: "row_dim lem = n" "row_dim lem_mask = n"
      using ne assms(4,5) by (simp_all add: row_dim_uniform)
    have l1: "length (lem_stump n) = n" "length (lem_mask_stump n) = n"
      using assms(6) by (simp_all add: lem_stump_def lem_mask_stump_def)
    have a1: "masked_assign ?hide (lem_stump n) lem =
              Inr (map (\<lambda>i. if ?P i then lem_stump n else lem ! i) [0..<length lem])"
      using rd l1 map_zip_upt [of "lem_stump n" ?P lem] by (simp add: masked_assign_def)
    have a2: "masked_assign ?hide (lem_mask_stump n) lem_mask =
              Inr (map (\<lambda>i. if ?P i then lem_mask_stump n else lem_mask ! i) [0..<length lem])"
      using rd l1 assms(3) map_zip_upt [of "lem_mask_stump n" ?P lem_mask]
      by (simp add: masked_assign_def)
    show ?thesis using True assms(1,2) a1 a2 rd
      by (simp add: forward_lexicon_dropout_def Let_def)
  qed
  have "\<forall>i < length lem. ?P i \<and> lem ! i \<noteq> lem_stump n
            \<longrightarrow> fst (snd (forward_lexicon_dropout self u lem lem_mask)) \<noteq> lem"
  proof (intro allI impI notI)
    fix i assume i: "i < length lem" and h: "?P i \<and> lem ! i \<noteq> lem_stump n"
      and same: "fst (snd (forward_lexicon_dropout self u lem lem_mask)) = lem"
    from same eq have "map (\<lambda>i. if ?P i then lem_stump n else lem ! i) [0..<length lem] ! i = lem ! i"
      by simp
    with i h show False by simp
  qed
  with eq show ?thesis by blast
qed


theorem forward_lexicon_dropout_mutates_witness:
  "is_lexicon (spell 4) \<and> 0 < lexicon_dropout (spell 4) \<and>
   forward_lexicon_dropout (spell 4) (\<lambda>i. if i = 0 then 1 / 4 else 3 / 4)
       [[1, 3, 4, 2], [1, 4, 2, 0]] [[0, 0, 0, 0], [0, 0, 0, 1]] =
     (None, [[1, 2, 0, 0], [1, 4, 2, 0]], [[0, 0, 0, 1], [0, 0, 0, 1]]) \<and>
   fst (snd (forward_lexicon_dropout (spell 4) (\<lambda>i. if i = 0 then 1 / 4 else 3 / 4)
       [[1, 3, 4, 2], [1, 4, 2, 0]] [[0, 0, 0, 0], [0, 0, 0, 1]])) \<noteq> [[1, 3, 4, 2], [1, 4, 2, 0]]"
proof -
  have hyps: "is_lexicon (spell 4)" "0 < lexicon_dropout (spell 4)"
    by (simp_all add: spell_def)
  have run: "forward_lexicon_dropout (spell 4) (\<lambda>i. if i = 0 then 1 / 4 else 3 / 4)
       [[1, 3, 4, 2], [1, 4, 2, 0]] [[0, 0, 0, 0], [0, 0, 0, 1]] =
     (None, [[1, 2, 0, 0], [1, 4, 2, 0]], [[0, 0, 0, 1], [0, 0, 0, 1]])"
    by code_simp
  from forward_lexicon_dropout_mutates [OF hyps, of "[[0, 0, 0, 0], [0, 0, 0, 1]]"
      "[[1, 3, 4, 2], [1, 4, 2, 0]]" 4 "\<lambda>i. if i = 0 then 1 / 4 else 3 / 4"]
  show ?thesis using hyps run by simp
qed

section \<open>Properties of \<^verbatim>\<open>predict\<close>\<close>

subsection \<open>The main loop stops when every Beam is done\<close>

lemma beam_body_calls:
  "beam_body self h_in beam_size batch_size st = (cs, Inr r) \<Longrightarrow> cs = [Decode]"
  by (auto simp: beam_body_def Let_def split: if_splits)

lemma main_loop_stops:
  assumes "body_iter self h_in beam_size batch_size t st = Inr (st', done_list)"
    and "length done_list = batch_size"
    and "\<forall>t' < t. \<forall>s d. body_iter self h_in beam_size batch_size t' st = Inr (s, d) \<longrightarrow> length d \<noteq> batch_size"
    and "t < n"
  shows "main_loop self h_in beam_size batch_size n cs st = (cs @ replicate (Suc t) Decode, Inr st')"
  using assms
proof (induction t arbitrary: st n cs)
  case 0
  then obtain m where n: "n = Suc m" by (cases n) auto
  obtain cs1 r where b: "beam_body self h_in beam_size batch_size st = (cs1, r)"
    by (cases "beam_body self h_in beam_size batch_size st")
  with 0 have r: "r = Inr (st', done_list)" by simp
  with b have "cs1 = [Decode]" by (simp add: beam_body_calls)
  with b r 0 n show ?case by simp
next
  case (Suc t)
  then obtain m where n: "n = Suc m" and m: "t < m" by (cases n) auto
  obtain cs1 r where b: "beam_body self h_in beam_size batch_size st = (cs1, r)"
    by (cases "beam_body self h_in beam_size batch_size st")
  with Suc.prems(1) obtain s1 d1 where r: "r = Inr (s1, d1)"
    and it: "body_iter self h_in beam_size batch_size t s1 = Inr (st', done_list)"
    by (cases r) (auto split: prod.splits)
  from b r have cs1: "cs1 = [Decode]" by (simp add: beam_body_calls)
  from Suc.prems(3) b r have d1: "length d1 \<noteq> batch_size"
    by (auto dest: spec [of _ 0])
  have later: "\<forall>t' < t. \<forall>s d. body_iter self h_in beam_size batch_size t' s1 = Inr (s, d) \<longrightarrow> length d \<noteq> batch_size"
  proof (intro allI impI)
    fix t' s d assume "t' < t" "body_iter self h_in beam_size batch_size t' s1 = Inr (s, d)"
    with Suc.prems(3) b r show "length d \<noteq> batch_size"
      by (auto dest!: spec [of _ "Suc t'"])
  qed
  from Suc.IH [OF it Suc.prems(2) later m, of "cs @ [Decode]"]
  show ?case using b r cs1 d1 n by (simp add: replicate_app_Cons_same)
qed

lemma predict_beam_calls:
  "beam_search self src src_mask lem lem_mask beam_size = (cs, r) \<Longrightarrow>
   calls (predict_beam self src src_mask lem lem_mask beam_size log_attn) = cs"
proof (cases r)
  case (Inl err)
  then show "beam_search self src src_mask lem lem_mask beam_size = (cs, r) \<Longrightarrow> ?thesis"
    by (simp add: predict_beam_def Let_def)
next
  case (Inr st)
  then show "beam_search self src src_mask lem lem_mask beam_size = (cs, r) \<Longrightarrow> ?thesis"
    by (cases "back_trace (s_beam st)") (auto simp: predict_beam_def Let_def)
qed

lemma advance_flag: "advance b lp = (bm, is_done) \<Longrightarrow> b_done bm = is_done"
  by (auto simp: advance_def Let_def split: if_splits)

lemma advance_all_done:
  assumes "advance_all beam_size log_probs bs st dl = Inr (st', dl')"
    and "distinct bs" and "\<forall>b \<in> set bs. b < length (s_beam st)"
  shows "dl' = dl @ filter (\<lambda>b. b_done (s_beam st' ! b)) bs \<and>
         length (s_beam st') = length (s_beam st) \<and>
         (\<forall>i. i \<notin> set bs \<longrightarrow> s_beam st' ! i = s_beam st ! i)"
  using assms
proof (induction bs arbitrary: st dl)
  case Nil
  then show ?case by simp
next
  case (Cons b bs)
  obtain bm is_done where adv: "advance (s_beam st ! b) (log_probs b) = (bm, is_done)"
    by (cases "advance (s_beam st ! b) (log_probs b)")
  from Cons.prems(1) adv obtain states where
    us: "update_state [s_hn st, s_cn st] b (get_current_origin bm) beam_size = Inr states"
    by (cases "update_state [s_hn st, s_cn st] b (get_current_origin bm) beam_size") auto
  let ?st1 = "st\<lparr>s_beam := (s_beam st)[b := bm], s_hn := states ! 0, s_cn := states ! 1\<rparr>"
  let ?dl1 = "if is_done then dl @ [b] else dl"
  from Cons.prems(1) adv us have rest: "advance_all beam_size log_probs bs ?st1 ?dl1 = Inr (st', dl')"
    by simp
  from Cons.prems(2) have d: "distinct bs" and nb: "b \<notin> set bs" by simp_all
  from Cons.prems(3) have r: "\<forall>x \<in> set bs. x < length (s_beam ?st1)" and bl: "b < length (s_beam st)"
    by simp_all
  from Cons.IH [OF rest d r] have
    dl': "dl' = ?dl1 @ filter (\<lambda>b. b_done (s_beam st' ! b)) bs"
    and len: "length (s_beam st') = length (s_beam st)"
    and other: "\<forall>i. i \<notin> set bs \<longrightarrow> s_beam st' ! i = s_beam ?st1 ! i"
    by simp_all
  from other nb bl have "s_beam st' ! b = bm" by simp
  with advance_flag [OF adv] have flag: "b_done (s_beam st' ! b) = is_done" by simp
  have "\<forall>i. i \<notin> set (b # bs) \<longrightarrow> s_beam st' ! i = s_beam st ! i"
    using other by simp
  with dl' len flag show ?case by simp
qed

lemma length_filter_all:
  "length (filter P xs) = length xs \<longleftrightarrow> (\<forall>x \<in> set xs. P x)"
proof (induction xs)
  case Nil
  show ?case by simp
next
  case (Cons x xs)
  have "length (filter P xs) \<noteq> Suc (length xs)"
    using length_filter_le [of P xs] by arith
  with Cons show ?case by auto
qed

lemma beam_body_done:
  assumes "beam_body self h_in beam_size batch_size st = (cs, Inr (st', done_list))"
    and "length (s_beam st) = batch_size"
  shows "length (s_beam st') = batch_size \<and>
         (length done_list = batch_size \<longleftrightarrow> list_all b_done (s_beam st'))"
proof -
  from assms(1) obtain lp st1 where
    aa: "advance_all beam_size lp [0..<batch_size] st1 [] = Inr (st', done_list)"
    and st1: "s_beam st1 = s_beam st"
    by (auto simp: beam_body_def Let_def split: if_splits)
  from advance_all_done [OF aa] st1 assms(2) have
    dl: "done_list = filter (\<lambda>b. b_done (s_beam st' ! b)) [0..<batch_size]"
    and len: "length (s_beam st') = batch_size"
    by simp_all
  have "length done_list = batch_size \<longleftrightarrow> (\<forall>b < batch_size. b_done (s_beam st' ! b))"
    unfolding dl using length_filter_all [of "\<lambda>b. b_done (s_beam st' ! b)" "[0..<batch_size]"]
    by auto
  also have "\<dots> \<longleftrightarrow> list_all b_done (s_beam st')"
    using len by (auto simp: list_all_length)
  finally show ?thesis using len by simp
qed

lemma body_iter_done:
  assumes "body_iter self h_in beam_size batch_size t st = Inr (st', done_list)"
    and "length (s_beam st) = batch_size"
  shows "length (s_beam st') = batch_size \<and>
         (length done_list = batch_size \<longleftrightarrow> list_all b_done (s_beam st'))"
  using assms
proof (induction t arbitrary: st)
  case 0
  obtain cs r where b: "beam_body self h_in beam_size batch_size st = (cs, r)"
    by (cases "beam_body self h_in beam_size batch_size st")
  with 0 show ?case using beam_body_done [of self h_in beam_size batch_size st cs st' done_list]
    by simp
next
  case (Suc t)
  obtain cs r where b: "beam_body self h_in beam_size batch_size st = (cs, r)"
    by (cases "beam_body self h_in beam_size batch_size st")
  with Suc.prems(1) obtain s1 d1 where r: "r = Inr (s1, d1)"
    and it: "body_iter self h_in beam_size batch_size t s1 = Inr (st', done_list)"
    by (cases r) auto
  from beam_body_done [of self h_in beam_size batch_size st cs s1 d1] b r Suc.prems(2)
  have "length (s_beam s1) = batch_size" by simp
  from Suc.IH [OF it this] show ?case .
qed

lemma beam_setup_beams:
  "beam_setup self src src_mask lem lem_mask beam_size = (h_in, st0) \<Longrightarrow>
   length (s_beam st0) = length src"
  by (auto simp: beam_setup_def Let_def)

text \<open>
  C2. Take a call of \<open>predict\<close> on the beam path, with the contexts \<open>h_in\<close> and the
  state \<open>st0\<close> that the set-up gives. If after iteration \<open>t\<close> of the main loop, below
  \<open>max_dec_len\<close>, the Beam of every example is done, then the decoder is not called
  after iteration \<open>t\<close>: the call makes \<open>t' + 1\<close> decoder calls for some \<open>t' \<le> t\<close>.
  If \<open>t\<close> is the first such iteration, the loop ends with the state of iteration \<open>t\<close>
  and the call has made exactly \<open>t + 1\<close> decoder calls, one in each of the iterations
  \<open>0, ..., t\<close>, however many iterations are left. (The list \<^verbatim>\<open>done\<close> of lines 563-567
  holds the examples whose Beam is done, so the test of line 571 holds exactly when
  every Beam is done: lemma \<open>body_iter_done\<close>.)
\<close>

theorem predict_early_stop:
  assumes "same_batch src src_mask lem lem_mask" and "0 \<le> beam_size" and "beam_size \<noteq> 1"
    and "beam_setup self src src_mask lem lem_mask beam_size = (h_in, st0)"
    and "body_iter self h_in beam_size (length src) t st0 = Inr (st', done_list)"
    and "list_all b_done (s_beam st')"
    and "t < nat (max_dec_len self)"
  shows "(\<exists>t' \<le> t. calls (predict self src src_mask lem lem_mask beam_size log_attn) =
                     [Encode, Encode] @ replicate (Suc t') Decode) \<and>
         ((\<forall>k < t. \<forall>s d. body_iter self h_in beam_size (length src) k st0 = Inr (s, d)
              \<longrightarrow> \<not> list_all b_done (s_beam s)) \<longrightarrow>
          beam_search self src src_mask lem lem_mask beam_size =
            ([Encode, Encode] @ replicate (Suc t) Decode, Inr st') \<and>
          calls (predict self src src_mask lem lem_mask beam_size log_attn) =
            [Encode, Encode] @ replicate (Suc t) Decode)"
proof -
  let ?B = "length src"
  let ?all_done = "\<lambda>k. \<exists>s d. body_iter self h_in beam_size ?B k st0 = Inr (s, d) \<and> list_all b_done (s_beam s)"
  note B0 = beam_setup_beams [OF assms(4)]
  have stops: "beam_search self src src_mask lem lem_mask beam_size =
                 ([Encode, Encode] @ replicate (Suc k) Decode, Inr s) \<and>
               calls (predict self src src_mask lem lem_mask beam_size log_attn) =
                 [Encode, Encode] @ replicate (Suc k) Decode"
    if it: "body_iter self h_in beam_size ?B k st0 = Inr (s, d)" and ad: "list_all b_done (s_beam s)"
      and first: "\<forall>j < k. \<not> ?all_done j" and k: "k \<le> t" for k s d
  proof -
    from body_iter_done [OF it B0] ad have len: "length d = ?B" by simp
    have before: "\<forall>j < k. \<forall>s1 d1. body_iter self h_in beam_size ?B j st0 = Inr (s1, d1)
                    \<longrightarrow> length d1 \<noteq> ?B"
    proof (intro allI impI)
      fix j s1 d1
      assume j: "j < k" and itj: "body_iter self h_in beam_size ?B j st0 = Inr (s1, d1)"
      from first j itj have "\<not> list_all b_done (s_beam s1)" by blast
      with body_iter_done [OF itj B0] show "length d1 \<noteq> ?B" by simp
    qed
    from k assms(7) have kn: "k < nat (max_dec_len self)" by simp
    have "main_loop self h_in beam_size ?B (nat (max_dec_len self)) [Encode, Encode] st0 =
            ([Encode, Encode] @ replicate (Suc k) Decode, Inr s)"
      by (rule main_loop_stops [OF it len before kn])
    with assms(1,2,4) have bs: "beam_search self src src_mask lem lem_mask beam_size =
             ([Encode, Encode] @ replicate (Suc k) Decode, Inr s)"
      by (simp add: beam_search_def)
    from predict_beam_calls [OF bs] assms(3) bs show ?thesis
      by (simp add: predict_def)
  qed
  have at_t: "?all_done t" using assms(5,6) by blast
  define t' where "t' = (LEAST k. ?all_done k)"
  have t'1: "?all_done t'" unfolding t'_def using at_t by (rule LeastI)
  have t'2: "t' \<le> t" unfolding t'_def using at_t by (rule Least_le)
  have t'3: "\<forall>j < t'. \<not> ?all_done j"
    unfolding t'_def using not_less_Least by blast
  from t'1 obtain s d where "body_iter self h_in beam_size ?B t' st0 = Inr (s, d)"
    and "list_all b_done (s_beam s)" by blast
  from stops [OF this t'3 t'2] t'2 have part1:
    "\<exists>t' \<le> t. calls (predict self src src_mask lem lem_mask beam_size log_attn) =
                     [Encode, Encode] @ replicate (Suc t') Decode"
    by blast
  have part2: "beam_search self src src_mask lem lem_mask beam_size =
            ([Encode, Encode] @ replicate (Suc t) Decode, Inr st') \<and>
          calls (predict self src src_mask lem lem_mask beam_size log_attn) =
            [Encode, Encode] @ replicate (Suc t) Decode"
    if "\<forall>k < t. \<forall>s d. body_iter self h_in beam_size ?B k st0 = Inr (s, d)
              \<longrightarrow> \<not> list_all b_done (s_beam s)"
  proof -
    from that have "\<forall>j < t. \<not> ?all_done j" by blast
    from stops [OF assms(5,6) this] show ?thesis by simp
  qed
  from part1 part2 show ?thesis by blast
qed

theorem predict_early_stop_witness:
  "same_batch [[3, 0], [3, 4]] [[0, 1], [0, 0]] [[1, 2, 0], [1, 2, 0]] [[0, 0, 1], [0, 0, 1]] \<and>
   \<not> list_all b_done (s_beam (fst (projr (body_iter (spell 5)
     (fst (beam_setup (spell 5) [[3, 0], [3, 4]] [[0, 1], [0, 0]] [[1, 2, 0], [1, 2, 0]] [[0, 0, 1], [0, 0, 1]] 2))
     2 (length [[3, 0], [3, 4 :: nat]]) 1
     (snd (beam_setup (spell 5) [[3, 0], [3, 4]] [[0, 1], [0, 0]] [[1, 2, 0], [1, 2, 0]] [[0, 0, 1], [0, 0, 1]] 2)))))) \<and>
   list_all b_done (s_beam (fst (projr (body_iter (spell 5)
     (fst (beam_setup (spell 5) [[3, 0], [3, 4]] [[0, 1], [0, 0]] [[1, 2, 0], [1, 2, 0]] [[0, 0, 1], [0, 0, 1]] 2))
     2 (length [[3, 0], [3, 4 :: nat]]) 2
     (snd (beam_setup (spell 5) [[3, 0], [3, 4]] [[0, 1], [0, 0]] [[1, 2, 0], [1, 2, 0]] [[0, 0, 1], [0, 0, 1]] 2)))))) \<and>
   (2 :: nat) < nat (max_dec_len (spell 5)) \<and>
   calls (predict (spell 5) [[3, 0], [3, 4]] [[0, 1], [0, 0]] [[1, 2, 0], [1, 2, 0]] [[0, 0, 1], [0, 0, 1]] 2 False) =
     [Encode, Encode, Decode, Decode, Decode]"
proof -
  let ?src = "[[3, 0], [3, 4]] :: nat list list"
  let ?start = "beam_setup (spell 5) ?src [[0, 1], [0, 0]] [[1, 2, 0], [1, 2, 0]] [[0, 0, 1], [0, 0, 1]] 2"
  let ?it = "\<lambda>k. body_iter (spell 5) (fst ?start) 2 (length ?src) k (snd ?start)"
  have sb: "same_batch ?src [[0, 1], [0, 0]] [[1, 2, 0], [1, 2, 0]] [[0, 0, 1], [0, 0, 1]]"
    by (simp add: same_batch_def)
  have init: "?start = (fst ?start, snd ?start)" by simp
  have d0: "\<not> list_all b_done (s_beam (fst (projr (?it 0))))" by code_simp
  have d1: "\<not> list_all b_done (s_beam (fst (projr (?it 1))))" by code_simp
  have r2: "\<not> isl (?it 2)" by code_simp
  have d2: "list_all b_done (s_beam (fst (projr (?it 2))))" by code_simp
  from r2 have last: "?it 2 = Inr (fst (projr (?it 2)), snd (projr (?it 2)))"
    by (cases "?it 2") simp_all
  have first: "\<forall>k < 2. \<forall>s d. ?it k = Inr (s, d) \<longrightarrow> \<not> list_all b_done (s_beam s)"
  proof (intro allI impI)
    fix k :: nat and s d
    assume k: "k < 2" and it: "?it k = Inr (s, d)"
    from k have "k = 0 \<or> k = 1" by auto
    then show "\<not> list_all b_done (s_beam s)"
    proof
      assume "k = 0"
      with it have "s = fst (projr (?it 0))" by simp
      with d0 show ?thesis by simp
    next
      assume "k = 1"
      with it have "s = fst (projr (?it 1))" by simp
      with d1 show ?thesis by simp
    qed
  qed
  have bound: "(2 :: nat) < nat (max_dec_len (spell 5))" by (simp add: spell_def)
  from predict_early_stop [OF sb _ _ init last d2 bound, of False] first
  have "calls (predict (spell 5) ?src [[0, 1], [0, 0]] [[1, 2, 0], [1, 2, 0]] [[0, 0, 1], [0, 0, 1]] 2 False) =
          [Encode, Encode] @ replicate (Suc 2) Decode"
    by simp
  then have "calls (predict (spell 5) ?src [[0, 1], [0, 0]] [[1, 2, 0], [1, 2, 0]] [[0, 0, 1], [0, 0, 1]] 2 False) =
          [Encode, Encode, Decode, Decode, Decode]"
    by (simp add: numeral_2_eq_2)
  with sb d1 d2 bound show ?thesis by blast
qed

subsection \<open>No validation of the configuration\<close>

lemma greedy_loop_calls:
  "greedy_loop self ctx batch_size cs st = (cs', r) \<Longrightarrow> \<exists>ds. cs' = cs @ ds \<and> set ds \<subseteq> {Decode}"
proof (induction self ctx batch_size cs st rule: greedy_loop.induct)
  case (1 self ctx batch_size cs st)
  show ?case
  proof (cases "g_total_done st < batch_size \<and> int (g_max_len st) < max_dec_len self")
    case False
    with "1.prems" show ?thesis by (simp add: greedy_loop.simps [of self ctx batch_size cs st])
  next
    case True
    show ?thesis
    proof (cases "greedy_body self ctx batch_size st")
      case (Inl err)
      with True "1.prems" show ?thesis by (auto simp: greedy_loop.simps [of self ctx batch_size cs st])
    next
      case (Inr st1)
      with True "1.prems" have "greedy_loop self ctx batch_size (cs @ [Decode]) st1 = (cs', r)"
        by (simp add: greedy_loop.simps [of self ctx batch_size cs st])
      from "1.IH" [OF True Inr this] show ?thesis by auto
    qed
  qed
qed

lemma beam_body_calls_le:
  "beam_body self h_in beam_size batch_size st = (cs, r) \<Longrightarrow> set cs \<subseteq> {Decode}"
  by (auto simp: beam_body_def Let_def split: if_splits)

lemma main_loop_calls:
  "main_loop self h_in beam_size batch_size n cs st = (cs', r) \<Longrightarrow> \<exists>ds. cs' = cs @ ds \<and> set ds \<subseteq> {Decode}"
proof (induction n arbitrary: cs st)
  case 0
  then show ?case by simp
next
  case (Suc n)
  obtain cs1 r1 where b: "beam_body self h_in beam_size batch_size st = (cs1, r1)"
    by (cases "beam_body self h_in beam_size batch_size st")
  note c1 = beam_body_calls_le [OF b]
  show ?case
  proof (cases r1)
    case (Inl err)
    with Suc.prems b c1 show ?thesis by auto
  next
    case (Inr p)
    obtain s1 d1 where p: "p = (s1, d1)" by (cases p)
    show ?thesis
    proof (cases "length d1 = batch_size")
      case True
      with Suc.prems b c1 Inr p show ?thesis by auto
    next
      case False
      with Suc.prems b Inr p have "main_loop self h_in beam_size batch_size n (cs @ cs1) s1 = (cs', r)"
        by simp
      from Suc.IH [OF this] c1 show ?thesis by auto
    qed
  qed
qed

lemma predict_calls_encode_first:
  assumes "same_batch src src_mask lem lem_mask"
  shows "\<exists>ds. calls (predict self src src_mask lem lem_mask beam_size log_attn) = [Encode, Encode] @ ds \<and>
              set ds \<subseteq> {Decode}"
proof (cases "beam_size = 1")
  case True
  let ?enc = "encode_batch self src src_mask lem lem_mask"
  let ?ctx = "map (\<lambda>(c, h, cc). c) ?enc"
  let ?init = "greedy_init (length src) (map (\<lambda>(c, h, cc). h) ?enc) (map (\<lambda>(c, h, cc). cc) ?enc)"
  obtain cs r where run: "greedy_loop self ?ctx (length src) [Encode, Encode] ?init = (cs, r)"
    by (cases "greedy_loop self ?ctx (length src) [Encode, Encode] ?init")
  from greedy_loop_calls [OF run] run True assms show ?thesis
    by (cases r) (auto simp: predict_def predict_greedy_def Let_def)
next
  case False
  obtain cs r where run: "beam_search self src src_mask lem lem_mask beam_size = (cs, r)"
    by (cases "beam_search self src src_mask lem lem_mask beam_size")
  have "\<exists>ds. cs = [Encode, Encode] @ ds \<and> set ds \<subseteq> {Decode}"
  proof (cases "beam_size < 0")
    case True
    with run assms show ?thesis by (simp add: beam_search_def)
  next
    case False
    with run assms have "main_loop self
       (concat (replicate (nat beam_size) (map (\<lambda>(c, h, cc). c) (encode_batch self src src_mask lem lem_mask))))
       beam_size (length src) (nat (max_dec_len self)) [Encode, Encode]
       \<lparr>s_hn = concat (replicate (nat beam_size) (map (\<lambda>(c, h, cc). h) (encode_batch self src src_mask lem lem_mask))),
        s_cn = concat (replicate (nat beam_size) (map (\<lambda>(c, h, cc). cc) (encode_batch self src src_mask lem lem_mask))),
        s_beam = replicate (length src) (new_beam (nat beam_size)), s_attns = []\<rparr> = (cs, r)"
      by (simp add: beam_search_def beam_setup_def Let_def)
    from main_loop_calls [OF this] show ?thesis by simp
  qed
  moreover have "calls (predict_beam self src src_mask lem lem_mask beam_size log_attn) = cs"
  proof (cases r)
    case (Inl err)
    with run show ?thesis by (simp add: predict_beam_def Let_def)
  next
    case (Inr st)
    with run show ?thesis
      by (cases "back_trace (s_beam st)") (auto simp: predict_beam_def Let_def)
  qed
  ultimately show ?thesis using False by (simp add: predict_def)
qed

lemma sort_best_new_beam:
  assumes "0 < K"
  shows "\<exists>scores ks. sort_best (new_beam K) = (Some 0 # scores, 0 # ks)"
proof -
  from assms obtain k where K: "K = Suc k" by (cases K) auto
  define rest :: "real option list" where "rest = map (\<lambda>i. if i = 0 then Some 0 else None) [Suc 0..<Suc k]"
  have sc: "b_scores (new_beam K) = Some 0 # rest"
    unfolding rest_def new_beam_def K by (subst upt_rec) simp
  have "\<forall>y \<in> set rest. y \<le> Some 0" by (auto simp: rest_def)
  then have "argmax (Some 0 # rest) = 0" by (simp add: list_all_iff)
  then have "argmax (map snd (enumerate 0 (Some 0 # rest))) = 0" by simp
  then have "\<exists>r. top_k (Suc k) (enumerate 0 (Some 0 # rest)) = (0, Some 0) # r"
    by (simp add: Let_def)
  then obtain r where r: "top_k (Suc k) (enumerate 0 (Some 0 # rest)) = (0, Some 0) # r"
    by blast
  have bw: "b_width (new_beam K) = Suc k" by (simp add: new_beam_def K)
  show ?thesis unfolding sort_best_def sc bw Let_def r by simp
qed

lemma get_hyp_new_beam: "prune_hyp (get_hyp (new_beam K) k) = []"
  by (simp add: get_hyp_def new_beam_def prune_hyp_def)

lemma back_trace_new_beams:
  assumes "0 < K"
  shows "\<exists>all_scores. back_trace (replicate n (new_beam K)) = Inr (replicate n [], all_scores)"
proof (induction n)
  case 0
  show ?case by simp
next
  case (Suc n)
  from sort_best_new_beam [OF assms] obtain scores ks
    where "sort_best (new_beam K) = (Some 0 # scores, 0 # ks)" by blast
  with Suc show ?case by (auto simp: get_hyp_new_beam)
qed

lemma predict_beam_no_steps:
  assumes "same_batch src src_mask lem lem_mask" and "max_dec_len self \<le> 0" and "0 < beam_size"
  shows "calls (predict_beam self src src_mask lem lem_mask beam_size log_attn) = [Encode, Encode] \<and>
         (\<exists>e. ret (predict_beam self src src_mask lem lem_mask beam_size log_attn) =
              Inr (Ret2 (replicate (length src) []) e))"
proof -
  from assms obtain st where bs: "beam_search self src src_mask lem lem_mask beam_size = ([Encode, Encode], Inr st)"
    and st: "s_beam st = replicate (length src) (new_beam (nat beam_size))"
    by (simp add: beam_search_def beam_setup_def Let_def)
  from assms(3) back_trace_new_beams [of "nat beam_size" "length src"] obtain all_scores
    where "back_trace (s_beam st) = Inr (replicate (length src) [], all_scores)"
    unfolding st by auto
  with bs show ?thesis
    by (simp add: predict_beam_def Let_def list_ex_iff)
qed

lemma greedy_loop_no_steps:
  "max_dec_len self \<le> 0 \<Longrightarrow>
   greedy_loop self ctx batch_size cs (greedy_init batch_size hn cn) = (cs, Inr (greedy_init batch_size hn cn))"
  by (subst greedy_loop.simps) (simp add: greedy_init_def)

lemma predict_greedy_no_steps:
  assumes "same_batch src src_mask lem lem_mask" and "max_dec_len self \<le> 0"
  shows "calls (predict_greedy self src src_mask lem lem_mask log_attn) = [Encode, Encode] \<and>
         (\<exists>e la. ret (predict_greedy self src src_mask lem lem_mask log_attn) =
              Inr (Ret3 (replicate (length src) []) e la))"
  using assms
  by (simp add: predict_greedy_def Let_def greedy_loop_no_steps) (simp add: greedy_init_def)

lemma predict_negative_beam:
  assumes "same_batch src src_mask lem lem_mask" and "beam_size < 0"
  shows "calls (predict self src src_mask lem lem_mask beam_size log_attn) = [Encode, Encode] \<and>
         ret (predict self src src_mask lem lem_mask beam_size log_attn) = Inl RuntimeError"
  using assms by (simp add: predict_def predict_beam_def beam_search_def)

text \<open>
  C4 (amended). \<open>predict\<close> validates neither \<open>beam_size\<close> nor \<open>max_dec_len\<close>. On
  every call (with input tensors of one batch size) the two encoders are called first,
  and only decoder calls follow. With \<open>max_dec_len \<le> 0\<close> and a positive \<open>beam_size\<close>
  the call makes no decoder step, raises nothing and returns an empty token sequence for
  each example. With a negative \<open>beam_size\<close> the call raises, but after the encoders
  ran: the error is the one \<^verbatim>\<open>repeat\<close> raises.
\<close>

theorem predict_no_validation:
  assumes "same_batch src src_mask lem lem_mask"
  shows "(\<exists>ds. calls (predict self src src_mask lem lem_mask beam_size log_attn) = [Encode, Encode] @ ds \<and>
               set ds \<subseteq> {Decode}) \<and>
         (max_dec_len self \<le> 0 \<and> 0 < beam_size \<longrightarrow>
            calls (predict self src src_mask lem lem_mask beam_size log_attn) = [Encode, Encode] \<and>
            (\<exists>e la. ret (predict self src src_mask lem lem_mask beam_size log_attn) =
               Inr (if beam_size = 1 then Ret3 (replicate (length src) []) e la
                    else Ret2 (replicate (length src) []) e))) \<and>
         (beam_size < 0 \<longrightarrow>
            calls (predict self src src_mask lem lem_mask beam_size log_attn) = [Encode, Encode] \<and>
            ret (predict self src src_mask lem lem_mask beam_size log_attn) = Inl RuntimeError)"
proof (intro conjI impI)
  show "\<exists>ds. calls (predict self src src_mask lem lem_mask beam_size log_attn) = [Encode, Encode] @ ds \<and>
             set ds \<subseteq> {Decode}"
    by (rule predict_calls_encode_first [OF assms])
next
  assume a: "max_dec_len self \<le> 0 \<and> 0 < beam_size"
  show "calls (predict self src src_mask lem lem_mask beam_size log_attn) = [Encode, Encode]"
    using a predict_greedy_no_steps [OF assms, of self log_attn]
      predict_beam_no_steps [OF assms, of self beam_size log_attn]
    by (simp add: predict_def)
  show "\<exists>e la. ret (predict self src src_mask lem lem_mask beam_size log_attn) =
               Inr (if beam_size = 1 then Ret3 (replicate (length src) []) e la
                    else Ret2 (replicate (length src) []) e)"
    using a predict_greedy_no_steps [OF assms, of self log_attn]
      predict_beam_no_steps [OF assms, of self beam_size log_attn]
    by (auto simp: predict_def)
next
  assume "beam_size < 0"
  from predict_negative_beam [OF assms this, of self log_attn]
  show "calls (predict self src src_mask lem lem_mask beam_size log_attn) = [Encode, Encode]"
    and "ret (predict self src src_mask lem lem_mask beam_size log_attn) = Inl RuntimeError"
    by simp_all
qed

theorem predict_no_validation_witness:
  "same_batch [[3, 3], [4, 0]] [[0, 0], [0, 1]] [[1, 2, 0], [1, 2, 0]] [[0, 0, 1], [0, 0, 1]] \<and> max_dec_len (spell (- 1)) \<le> 0 \<and>
   calls (predict (spell (- 1)) [[3, 3], [4, 0]] [[0, 0], [0, 1]] [[1, 2, 0], [1, 2, 0]] [[0, 0, 1], [0, 0, 1]] 3 False) = [Encode, Encode] \<and>
   ret (predict (spell (- 1)) [[3, 3], [4, 0]] [[0, 0], [0, 1]] [[1, 2, 0], [1, 2, 0]] [[0, 0, 1], [0, 0, 1]] 3 False) = Inr (Ret2 [[], []] (Some [1, 1]))"
proof -
  have sb: "same_batch [[3, 3], [4, 0]] [[0, 0], [0, 1]] [[1, 2, 0], [1, 2, 0]] [[0, 0, 1], [0, 0, 1]]"
    by (simp add: same_batch_def)
  have run: "ret (predict (spell (- 1)) [[3, 3], [4, 0]] [[0, 0], [0, 1]] [[1, 2, 0], [1, 2, 0]] [[0, 0, 1], [0, 0, 1]] 3 False) = Inr (Ret2 [[], []] (Some [1, 1]))"
    by code_simp
  from predict_no_validation [OF sb, of "spell (- 1)" 3 False] sb run
  show ?thesis by (simp add: spell_def)
qed

text \<open>
  C4 as stated fails: with \<open>max_dec_len = 0\<close> the call (here on the greedy path)
  returns after the encoders ran, and with \<open>beam_size = - 1\<close> the error comes after
  the encoders ran.
\<close>

theorem predict_no_validation_counterexample:
  "predict (spell 0) [[3, 3], [4, 0]] [[0, 0], [0, 1]] [[1, 2, 0], [1, 2, 0]] [[0, 0, 1], [0, 0, 1]] 1 False =
     \<lparr>calls = [Encode, Encode], dumped = None, ret = Inr (Ret3 [[], []] (Some [1, 1]) None)\<rparr> \<and>
   predict (spell 4) [[3, 3], [4, 0]] [[0, 0], [0, 1]] [[1, 2, 0], [1, 2, 0]] [[0, 0, 1], [0, 0, 1]] (- 1) False =
     \<lparr>calls = [Encode, Encode], dumped = None, ret = Inl RuntimeError\<rparr>"
  by code_simp

subsection \<open>The edit logits\<close>

lemma predict_greedy_ret:
  assumes "ret (predict_greedy self src src_mask lem lem_mask log_attn) = Inr r"
  shows "\<exists>output_seqs la. r = Ret3 output_seqs
           (edit_logits_of self (map (\<lambda>(c, h, cc). h) (encode_batch self src src_mask lem lem_mask))) la"
proof -
  let ?enc = "encode_batch self src src_mask lem lem_mask"
  let ?ctx = "map (\<lambda>(c, h, cc). c) ?enc"
  let ?init = "greedy_init (length src) (map (\<lambda>(c, h, cc). h) ?enc) (map (\<lambda>(c, h, cc). cc) ?enc)"
  obtain cs res where run: "greedy_loop self ?ctx (length src) [Encode, Encode] ?init = (cs, res)"
    by (cases "greedy_loop self ?ctx (length src) [Encode, Encode] ?init")
  from assms have sb: "same_batch src src_mask lem lem_mask"
    by (simp add: predict_greedy_def split: if_splits)
  show ?thesis
  proof (cases res)
    case (Inl err)
    with assms run sb show ?thesis by (simp add: predict_greedy_def Let_def)
  next
    case (Inr st)
    with assms run sb show ?thesis by (auto simp: predict_greedy_def Let_def)
  qed
qed

lemma predict_beam_ret:
  assumes "ret (predict_beam self src src_mask lem lem_mask beam_size log_attn) = Inr r"
  shows "\<exists>all_hyp. r = Ret2 all_hyp
           (edit_logits_of self (map (\<lambda>(c, h, cc). h) (encode_batch self src src_mask lem lem_mask)))"
proof -
  obtain cs res where run: "beam_search self src src_mask lem lem_mask beam_size = (cs, res)"
    by (cases "beam_search self src src_mask lem lem_mask beam_size")
  show ?thesis
  proof (cases res)
    case (Inl err)
    with assms run show ?thesis by (simp add: predict_beam_def Let_def)
  next
    case (Inr st)
    show ?thesis
    proof (cases "back_trace (s_beam st)")
      case (Inl err)
      with assms run Inr show ?thesis by (simp add: predict_beam_def Let_def)
    next
      case bt: (Inr p)
      obtain all_hyp all_scores where p: "p = (all_hyp, all_scores)" by (cases p)
      from assms run Inr bt p show ?thesis
        by (auto simp: predict_beam_def Let_def split: if_splits)
    qed
  qed
qed

text \<open>
  C7. Whatever \<open>predict\<close> returns, on the greedy path or on the beam path and after any
  number of decoder steps, its edit logits are those computed from the encoder's final
  \<^verbatim>\<open>hn\<close> before the loop: \<open>edit_clf\<close> of each example's encoded state when the
  model has an edit classifier. (In the source \<^verbatim>\<open>edit_logits\<close> is the fresh tensor
  that \<^verbatim>\<open>edit_clf\<close> returns; the in-place writes of \<^verbatim>\<open>update_state\<close> go to the tensors
  that \<^verbatim>\<open>repeat\<close> and \<^verbatim>\<open>decode\<close> return, so none of them reaches it.)
\<close>

theorem predict_edit_logits:
  assumes "ret (predict self src src_mask lem lem_mask beam_size log_attn) = Inr r"
  shows "ret_edit_logits r =
         edit_logits_of self (map (\<lambda>(c, h, cc). h) (encode_batch self src src_mask lem lem_mask)) \<and>
         (edit self \<longrightarrow> ret_edit_logits r =
            Some (map (\<lambda>(s, sm, l, lm). edit_clf self (fst (snd (encode self s sm l lm))))
                    (zip src (zip src_mask (zip lem lem_mask)))))"
proof -
  have 1: "ret_edit_logits r =
         edit_logits_of self (map (\<lambda>(c, h, cc). h) (encode_batch self src src_mask lem lem_mask))"
  proof (cases "beam_size = 1")
    case True
    with assms predict_greedy_ret [of self src src_mask lem lem_mask log_attn r]
    show ?thesis by (auto simp: predict_def)
  next
    case False
    with assms predict_beam_ret [of self src src_mask lem lem_mask beam_size log_attn r]
    show ?thesis by (auto simp: predict_def)
  qed
  have 2: "map (\<lambda>(c, h, cc). h) (encode_batch self src src_mask lem lem_mask) =
           map (\<lambda>(s, sm, l, lm). fst (snd (encode self s sm l lm))) (zip src (zip src_mask (zip lem lem_mask)))"
    by (simp add: encode_batch_def split_def)
  show ?thesis using 1 unfolding 2 by (simp add: edit_logits_of_def split_def)
qed

theorem predict_edit_logits_witness:
  "ret (predict (spell 4) [[3, 3], [4, 0]] [[0, 0], [0, 1]] [[1, 2, 0], [1, 2, 0]] [[0, 0, 1], [0, 0, 1]] 2 False) = Inr (Ret2 [[3, 3], [4]] (Some [1, 1])) \<and>
   edit (spell 4) \<and>
   ret_edit_logits (Ret2 [[3, 3], [4]] (Some [1, 1]) :: (nat, nat) retval) =
     Some (map (\<lambda>(s, sm, l, lm). edit_clf (spell 4) (fst (snd (encode (spell 4) s sm l lm))))
             (zip [[3, 3], [4, 0]] (zip [[0, 0], [0, 1]] (zip [[1, 2, 0], [1, 2, 0]] [[0, 0, 1], [0, 0, 1]]))))"
proof -
  have run: "ret (predict (spell 4) [[3, 3], [4, 0]] [[0, 0], [0, 1]] [[1, 2, 0], [1, 2, 0]] [[0, 0, 1], [0, 0, 1]] 2 False) = Inr (Ret2 [[3, 3], [4]] (Some [1, 1]))"
    by code_simp
  have e: "edit (spell 4)" by (simp add: spell_def)
  from predict_edit_logits [OF run] run e show ?thesis by simp
qed

subsection \<open>Attention logging on the beam path\<close>

text \<open>
  C8 says that \<^verbatim>\<open>log_attn=True\<close> changes neither the token sequences nor the edit
  logits and that the call completes whenever the call with \<^verbatim>\<open>log_attn=False\<close>
  does. The code fails it on the beam path: line 591 calls \<^verbatim>\<open>x.tolist()\<close> on the
  Python numbers that line 582 put into the hypotheses, so the call raises
  \<^verbatim>\<open>AttributeError\<close> as soon as one hypothesis has a token. The same call, on the
  same batch, returns without logging and raises with it.
\<close>

theorem predict_log_attn_raises:
  "ret (predict (spell 4) [[3, 3], [4, 0]] [[0, 0], [0, 1]] [[1, 2, 0], [1, 2, 0]] [[0, 0, 1], [0, 0, 1]] 2 False) = Inr (Ret2 [[3, 3], [4]] (Some [1, 1])) \<and>
   ret (predict (spell 4) [[3, 3], [4, 0]] [[0, 0], [0, 1]] [[1, 2, 0], [1, 2, 0]] [[0, 0, 1], [0, 0, 1]] 2 True) = Inl AttributeError"
  by code_simp

text \<open>
  C3 says that \<open>predict\<close> raises no error for an example that reaches no \<^verbatim>\<open>EOS\<close>
  within \<open>max_dec_len\<close> steps and returns its pruned rank-0 hypothesis. The code fails
  it through the same line 591. The Scorer \<open>spell 2\<close> on the source \<^verbatim>\<open>[3, 3, 4]\<close>
  reaches no \<^verbatim>\<open>EOS\<close> within its two steps: without attention logging the best
  incomplete hypothesis \<^verbatim>\<open>[3, 3]\<close> is returned, with attention logging the call
  raises.
\<close>

theorem predict_exhausted_log_attn_raises:
  "ret (predict (spell 2) [[3, 3, 4]] [[0, 0, 0]] [[1, 2, 0]] [[0, 0, 1]] 3 False) =
     Inr (Ret2 [[3, 3]] (Some [1])) \<and>
   ret (predict (spell 2) [[3, 3, 4]] [[0, 0, 0]] [[1, 2, 0]] [[0, 0, 1]] 3 True) =
     Inl AttributeError"
  by code_simp

section \<open>The greedy path and the beam path of width 1\<close>

lemma argmax_less: "xs \<noteq> [] \<Longrightarrow> argmax xs < length xs"
proof (induction xs)
  case Nil
  then show ?case by simp
next
  case (Cons x xs)
  show ?case
  proof (cases "list_all (\<lambda>y. y \<le> x) xs")
    case True
    then show ?thesis by simp
  next
    case False
    then have "xs \<noteq> []" by auto
    with Cons.IH False show ?thesis by simp
  qed
qed

lemma argmax_map_mono:
  assumes "\<And>x y. (f x \<le> f y) = (x \<le> y)"
  shows "argmax (map f xs) = argmax xs"
  by (induction xs) (simp_all add: list_all_iff assms)

lemma candidates_lane1:
  assumes "b_scores b = [Some sc]"
  shows "candidates b [row] = map (\<lambda>v. ((0, v), Some (sc + row ! v))) [0..<length row]"
  using assms
  by (auto simp: candidates_def enumerate_eq_zip intro!: nth_equalityI)

lemma top_k_one:
  "cands \<noteq> [] \<Longrightarrow> top_k (Suc 0) cands = [cands ! argmax (map snd cands)]"
  by (simp add: Let_def)

lemma advance_lane1:
  assumes "lane1 b ts" and "\<not> b_done b" and "row \<noteq> []"
  shows "\<exists>b'. advance b [row] = (b', argmax row = EOS_ID) \<and> lane1 b' (ts @ [argmax row]) \<and>
              b_done b' = (argmax row = EOS_ID)"
proof -
  from assms(1) obtain sc where sc: "b_scores b = [Some sc]" and w: "b_width b = 1"
    and tk: "b_tokens b = map (\<lambda>t. [t]) ts" and bp: "b_backpointers b = map (\<lambda>t. [0]) ts"
    by (auto simp: lane1_def)
  let ?cands = "map (\<lambda>v. ((0::nat, v), Some (sc + row ! v))) [0..<length row]"
  have ms: "map snd ?cands = map (\<lambda>x. Some (x + sc)) row"
    by (auto intro!: nth_equalityI)
  have am: "argmax (map snd ?cands) = argmax row"
    unfolding ms by (rule argmax_map_mono) simp
  have lt: "argmax row < length row" using assms(3) by (rule argmax_less)
  have ne: "?cands \<noteq> []" using assms(3) by simp
  have best: "top_k (Suc 0) ?cands = [((0, argmax row), Some (sc + row ! argmax row))]"
    unfolding top_k_one [OF ne] am using lt by simp
  have "advance b [row] =
          (b\<lparr>b_scores := [Some (sc + row ! argmax row)],
             b_tokens := b_tokens b @ [[argmax row]],
             b_backpointers := b_backpointers b @ [[0]],
             b_done := (argmax row = EOS_ID)\<rparr>, argmax row = EOS_ID)"
    using assms(2) by (simp add: advance_def candidates_lane1 [OF sc] w best Let_def del: top_k.simps)
  then show ?thesis using w tk bp by (simp add: lane1_def)
qed

lemma advance_done: "b_done b \<Longrightarrow> advance b lp = (b, True)"
  by (simp add: advance_def)

lemma origin_lane1: "lane1 b ts \<Longrightarrow> get_current_origin b = [0]"
  by (cases "ts = []") (auto simp: lane1_def get_current_origin_def last_map)

lemma state_lane1:
  "lane1 b ts \<Longrightarrow> get_current_state b = [if ts = [] then SOS_ID else last ts]"
  by (cases "ts = []") (auto simp: lane1_def get_current_state_def last_map)

lemma update_state_one_id:
  assumes "b < length e"
  shows "update_state_one e b [0] 1 = Inr e"
proof -
  have v: "view_beam 1 e = Inr (length e)" by (simp add: view_beam_def Let_def)
  show ?thesis using assms by (simp add: update_state_one_def v Let_def)
qed

lemma update_state_id:
  "b < length hn \<Longrightarrow> b < length cn \<Longrightarrow> update_state [hn, cn] b [0] 1 = Inr [hn, cn]"
  by (simp add: update_state_one_id)

lemma backtrace_lane1:
  "backtrace (rev (map (\<lambda>t. [t]) ts)) (rev (map (\<lambda>t. [0]) ts)) 0 hyp = ts @ hyp"
  by (induction ts arbitrary: hyp rule: rev_induct) simp_all

lemma get_hyp_lane1: "lane1 b ts \<Longrightarrow> get_hyp b 0 = ts"
  by (simp add: get_hyp_def lane1_def backtrace_lane1)

lemma sort_best_lane1: "lane1 b ts \<Longrightarrow> \<exists>sc. sort_best b = ([sc], [0])"
  by (auto simp: sort_best_def lane1_def Let_def)

lemma prune_hyp_snoc:
  assumes "is_control t"
  shows "prune_hyp (xs @ [t]) = prune_hyp xs"
proof (cases "\<forall>x \<in> set xs. is_control x")
  case True
  with assms have a: "dropWhile is_control (xs @ [t]) = []" and b: "dropWhile is_control xs = []"
    unfolding dropWhile_eq_Nil_conv by simp_all
  show ?thesis unfolding prune_hyp_def a b ..
next
  case False
  then have a: "dropWhile is_control (xs @ [t]) = dropWhile is_control xs @ [t]"
    by (auto simp: dropWhile_append1)
  show ?thesis unfolding prune_hyp_def a using assms by simp
qed

lemma back_trace_lanes:
  assumes "\<forall>b \<in> set bs. \<exists>sc. sort_best b = ([sc], [0])"
  shows "\<exists>scores. back_trace bs = Inr (map (\<lambda>b. prune_hyp (get_hyp b 0)) bs, scores)"
  using assms
proof (induction bs)
  case Nil
  show ?case by simp
next
  case (Cons b bs)
  then obtain sc scores where "sort_best b = ([sc], [0])"
    and "back_trace bs = Inr (map (\<lambda>b. prune_hyp (get_hyp b 0)) bs, scores)"
    by auto
  then show ?case by simp
qed

lemma count_update_True:
  "i < length xs \<Longrightarrow> \<not> xs ! i \<Longrightarrow> length (filter (\<lambda>d. d) (xs[i := True])) = Suc (length (filter (\<lambda>d. d) xs))"
proof (induction xs arbitrary: i)
  case Nil
  then show ?case by simp
next
  case (Cons x xs)
  then show ?case by (cases i) auto
qed

lemma decode_batch_length:
  "length ctx = B \<Longrightarrow> length toks = B \<Longrightarrow> length hn = B \<Longrightarrow> length cn = B \<Longrightarrow>
   length (decode_batch self ctx toks hn cn) = B"
  by (simp add: decode_batch_def)

lemma decode_batch_nth:
  "length ctx = B \<Longrightarrow> length toks = B \<Longrightarrow> length hn = B \<Longrightarrow> length cn = B \<Longrightarrow> i < B \<Longrightarrow>
   decode_batch self ctx toks hn cn ! i = decode self (ctx ! i) (toks ! i) (hn ! i) (cn ! i)"
  by (simp add: decode_batch_def)

lemma advance_all_lanes:
  assumes "distinct bs"
    and "\<forall>b \<in> set bs. b < length (s_hn st) \<and> b < length (s_cn st) \<and> b < length (s_beam st)"
    and "\<forall>b \<in> set bs. get_current_origin (fst (advance (s_beam st ! b) (lp b))) = [0]"
  shows "\<exists>st'. advance_all 1 lp bs st dl =
            Inr (st', dl @ filter (\<lambda>b. snd (advance (s_beam st ! b) (lp b))) bs) \<and>
          s_hn st' = s_hn st \<and> s_cn st' = s_cn st \<and> s_attns st' = s_attns st \<and>
          length (s_beam st') = length (s_beam st) \<and>
          (\<forall>i < length (s_beam st). s_beam st' ! i =
              (if i \<in> set bs then fst (advance (s_beam st ! i) (lp i)) else s_beam st ! i))"
  using assms
proof (induction bs arbitrary: st dl)
  case Nil
  show ?case by simp
next
  case (Cons b bs)
  obtain bm isd where adv: "advance (s_beam st ! b) (lp b) = (bm, isd)"
    by (cases "advance (s_beam st ! b) (lp b)")
  from Cons.prems(3) adv have origin: "get_current_origin bm = [0]" by simp
  from Cons.prems(2) have b: "b < length (s_hn st)" "b < length (s_cn st)" "b < length (s_beam st)"
    by simp_all
  let ?st1 = "st\<lparr>s_beam := (s_beam st)[b := bm]\<rparr>"
  let ?dl1 = "if isd then dl @ [b] else dl"
  have step: "advance_all 1 lp (b # bs) st dl = advance_all 1 lp bs ?st1 ?dl1"
    using adv by (simp add: origin update_state_id [OF b(1,2)] del: update_state.simps)
  have other: "\<forall>b' \<in> set bs. s_beam ?st1 ! b' = s_beam st ! b'"
  proof
    fix b' assume "b' \<in> set bs"
    with Cons.prems(1) have "b \<noteq> b'" by auto
    then show "s_beam ?st1 ! b' = s_beam st ! b'" by simp
  qed
  have p1: "distinct bs" using Cons.prems(1) by simp
  have p2: "\<forall>b' \<in> set bs. b' < length (s_hn ?st1) \<and> b' < length (s_cn ?st1) \<and> b' < length (s_beam ?st1)"
    using Cons.prems(2) by simp
  have p3: "\<forall>b' \<in> set bs. get_current_origin (fst (advance (s_beam ?st1 ! b') (lp b'))) = [0]"
    using Cons.prems(3) other by simp
  from Cons.IH [OF p1 p2 p3, of ?dl1] obtain st' where
    run: "advance_all 1 lp bs ?st1 ?dl1 =
            Inr (st', ?dl1 @ filter (\<lambda>b'. snd (advance (s_beam ?st1 ! b') (lp b'))) bs)"
    and same: "s_hn st' = s_hn st" "s_cn st' = s_cn st" "s_attns st' = s_attns st"
      "length (s_beam st') = length (s_beam st)"
    and nth: "\<forall>i < length (s_beam st). s_beam st' ! i =
              (if i \<in> set bs then fst (advance (s_beam ?st1 ! i) (lp i)) else s_beam ?st1 ! i)"
    by auto
  have f: "filter (\<lambda>b'. snd (advance (s_beam ?st1 ! b') (lp b'))) bs =
           filter (\<lambda>b'. snd (advance (s_beam st ! b') (lp b'))) bs"
    using other by (auto intro: filter_cong)
  have dl: "?dl1 @ filter (\<lambda>b'. snd (advance (s_beam st ! b') (lp b'))) bs =
            dl @ filter (\<lambda>b'. snd (advance (s_beam st ! b') (lp b'))) (b # bs)"
    using adv by simp
  have nth': "\<forall>i < length (s_beam st). s_beam st' ! i =
              (if i \<in> set (b # bs) then fst (advance (s_beam st ! i) (lp i)) else s_beam st ! i)"
  proof (intro allI impI)
    fix i assume i: "i < length (s_beam st)"
    show "s_beam st' ! i = (if i \<in> set (b # bs) then fst (advance (s_beam st ! i) (lp i)) else s_beam st ! i)"
    proof (cases "i = b")
      case True
      with Cons.prems(1) have "i \<notin> set bs" by simp
      with nth i True adv show ?thesis by simp
    next
      case False
      with nth i show ?thesis by simp
    qed
  qed
  show ?case
    using step run same nth' unfolding f dl by auto
qed

lemma fold_collect_token_count:
  assumes "\<forall>i \<in> set is. i < length (g_done st)"
    and "g_total_done st = length (filter (\<lambda>d. d) (g_done st))"
  shows "g_total_done (fold (collect_token preds) is st) =
         length (filter (\<lambda>d. d) (g_done (fold (collect_token preds) is st)))"
  using assms
proof (induction "is" arbitrary: st)
  case Nil
  then show ?case by simp
next
  case (Cons i "is")
  have "g_total_done (collect_token preds i st) =
        length (filter (\<lambda>d. d) (g_done (collect_token preds i st)))"
    using Cons.prems by (simp add: collect_token_def Let_def count_update_True)
  moreover have "\<forall>j \<in> set is. j < length (g_done (collect_token preds i st))"
    using Cons.prems(1) by (simp add: collect_token_lengths)
  ultimately show ?case using Cons.IH by simp
qed

lemma greedy_body_fields:
  assumes "greedy_body self ctx batch_size st = Inr st'"
  shows "g_hn st' = map (\<lambda>(lp, h, cc, a). h) (decode_batch self ctx (g_dec_inputs st) (g_hn st) (g_cn st))"
    and "g_cn st' = map (\<lambda>(lp, h, cc, a). cc) (decode_batch self ctx (g_dec_inputs st) (g_hn st) (g_cn st))"
    and "g_dec_inputs st' = greedy_preds self ctx st"
proof -
  let ?out = "decode_batch self ctx (g_dec_inputs st) (g_hn st) (g_cn st)"
  let ?st1 = "st\<lparr>g_hn := map (\<lambda>(lp, h, cc, a). h) ?out,
                  g_cn := map (\<lambda>(lp, h, cc, a). cc) ?out,
                  g_dec_inputs := greedy_preds self ctx st,
                  g_max_len := g_max_len st + 1,
                  g_attns := g_attns st @ [map (\<lambda>(lp, h, cc, a). a) ?out]\<rparr>"
  from assms have st': "st' = fold (collect_token (greedy_preds self ctx st)) [0..<batch_size] ?st1"
    unfolding greedy_body_def greedy_preds_def Let_def by (simp split: if_splits)
  show "g_hn st' = map (\<lambda>(lp, h, cc, a). h) ?out"
    and "g_cn st' = map (\<lambda>(lp, h, cc, a). cc) ?out"
    and "g_dec_inputs st' = greedy_preds self ctx st"
    unfolding st' by (simp_all add: fold_collect_token_fields)
qed

lemma greedy_body_count:
  assumes "greedy_body self ctx batch_size st = Inr st'"
    and "length (g_done st) = batch_size"
    and "g_total_done st = length (filter (\<lambda>d. d) (g_done st))"
  shows "g_total_done st' = length (filter (\<lambda>d. d) (g_done st'))"
proof -
  from assms(1) obtain st1 where st1:
    "st' = fold (collect_token (greedy_preds self ctx st)) [0..<batch_size] st1"
    "g_done st1 = g_done st" "g_total_done st1 = g_total_done st"
    by (rule greedy_body_Inr)
  show ?thesis unfolding st1(1)
    by (rule fold_collect_token_count) (simp_all add: st1 assms)
qed

lemma greedy_body_total:
  assumes "\<forall>c t h cc. fst (decode self c t h cc) \<noteq> []"
  shows "\<exists>st'. greedy_body self ctx batch_size st = Inr st'"
proof -
  have "\<not> list_ex (\<lambda>row. row = []) (map fst (decode_batch self ctx (g_dec_inputs st) (g_hn st) (g_cn st)))"
    using assms by (auto simp: list_ex_iff decode_batch_def) (metis)
  then show ?thesis by (simp add: greedy_body_def Let_def)
qed

lemma lane_sim_lane1: "lane_sim g s i \<Longrightarrow> \<exists>ts. lane1 (s_beam s ! i) ts"
  by (auto simp: lane_sim_def split: if_splits)

lemma sim_step:
  assumes vocab: "\<forall>c t h cc. fst (decode self c t h cc) \<noteq> []"
    and sim: "sim B g s" and ctx: "length ctx = B" and B: "0 < B"
  shows "\<exists>g' s' dl. greedy_body self ctx B g = Inr g' \<and>
           beam_body self ctx 1 B s = ([Decode], Inr (s', dl)) \<and>
           sim B g' s' \<and> length dl = g_total_done g'"
proof -
  from greedy_body_total [OF vocab] obtain g' where g': "greedy_body self ctx B g = Inr g'"
    by blast
  from sim have len: "length (g_hn g) = B" "length (g_cn g) = B" "length (g_dec_inputs g) = B"
    "length (g_done g) = B" "length (g_output_seqs g) = B"
    "length (s_hn s) = B" "length (s_cn s) = B" "length (s_beam s) = B"
    and cnt: "g_total_done g = length (filter (\<lambda>d. d) (g_done g))"
    and lanes: "\<forall>i < B. lane_sim g s i"
    by (simp_all add: sim_def)
  let ?gout = "decode_batch self ctx (g_dec_inputs g) (g_hn g) (g_cn g)"
  let ?toks = "map (\<lambda>b. get_current_state b ! 0) (s_beam s)"
  let ?out = "decode_batch self ctx ?toks (s_hn s) (s_cn s)"
  let ?lp = "\<lambda>b. [fst (?out ! b)]"
  let ?st1 = "s\<lparr>s_hn := map (\<lambda>(lp, h, cc, a). h) ?out, s_cn := map (\<lambda>(lp, h, cc, a). cc) ?out,
                 s_attns := s_attns s @ [map (\<lambda>(lp, h, cc, a). a) ?out]\<rparr>"
  have lout: "length ?out = B" "length ?gout = B"
    using len ctx by (simp_all add: decode_batch_length)
  have out_nth: "?out ! i = decode self (ctx ! i) (get_current_state (s_beam s ! i) ! 0) (s_hn s ! i) (s_cn s ! i)"
    if "i < B" for i
    using that len ctx by (simp add: decode_batch_nth)
  have gout_nth: "?gout ! i = decode self (ctx ! i) (g_dec_inputs g ! i) (g_hn g ! i) (g_cn g ! i)"
    if "i < B" for i
    using that len ctx by (simp add: decode_batch_nth)
  have same_out: "?out ! i = ?gout ! i" if "i < B" "\<not> g_done g ! i" for i
    using that lanes out_nth gout_nth by (simp add: lane_sim_def)
  have row_ne: "fst (?out ! i) \<noteq> []" if "i < B" for i
    using that vocab out_nth by simp
  have pred: "greedy_preds self ctx g ! i = argmax (fst (?gout ! i))" if "i < B" for i
    using that lout by (simp add: greedy_preds_def)
  \<comment> \<open>the guards of the body\<close>
  have state_one: "length (get_current_state b) = 1" if "b \<in> set (s_beam s)" for b
  proof -
    from that len obtain i where "i < B" "b = s_beam s ! i" by (auto simp: in_set_conv_nth)
    with lanes lane_sim_lane1 obtain ts where "lane1 b ts" by blast
    then show ?thesis by (simp add: state_lane1)
  qed
  have beams_ne: "s_beam s \<noteq> []" using len B by auto
  then have hd_one: "length (get_current_state (hd (s_beam s))) = 1"
    by (simp add: state_one)
  have state_len: "\<not> list_ex (\<lambda>b. length (get_current_state b) \<noteq>
      length (get_current_state (hd (s_beam s)))) (s_beam s)"
    unfolding hd_one using state_one by (auto simp: list_ex_iff)
  have body: "beam_body self ctx 1 B s = ([Decode], advance_all 1 ?lp [0..<B] ?st1 [])"
    using state_len beams_ne hd_one B by (simp add: beam_body_def Let_def)
  \<comment> \<open>each Beam after its advance\<close>
  have adv_done: "advance (s_beam s ! i) (?lp i) = (s_beam s ! i, True)" if "i < B" "g_done g ! i" for i
    using that lanes by (simp add: lane_sim_def advance_done)
  have adv_live: "\<exists>b'. advance (s_beam s ! i) (?lp i) = (b', argmax (fst (?gout ! i)) = EOS_ID) \<and>
         lane1 b' (g_output_seqs g ! i @ [argmax (fst (?gout ! i))]) \<and>
         b_done b' = (argmax (fst (?gout ! i)) = EOS_ID)" if "i < B" "\<not> g_done g ! i" for i
  proof -
    from that lanes have "lane1 (s_beam s ! i) (g_output_seqs g ! i)" "\<not> b_done (s_beam s ! i)"
      by (simp_all add: lane_sim_def)
    from advance_lane1 [OF this row_ne [OF that(1)]] same_out [OF that] show ?thesis by simp
  qed
  have origin: "get_current_origin (fst (advance (s_beam ?st1 ! i) (?lp i))) = [0]" if "i < B" for i
  proof (cases "g_done g ! i")
    case True
    from that lanes lane_sim_lane1 obtain ts where "lane1 (s_beam s ! i) ts" by blast
    then have "get_current_origin (s_beam s ! i) = [0]" by (rule origin_lane1)
    with adv_done [OF that True] show ?thesis by simp
  next
    case False
    from adv_live [OF that False] obtain b' ts where
      "advance (s_beam s ! i) (?lp i) = (b', argmax (fst (?gout ! i)) = EOS_ID)" "lane1 b' ts"
      by blast
    with origin_lane1 [of b' ts] show ?thesis by simp
  qed
  have d1: "distinct [0..<B]" by simp
  have d2: "\<forall>b \<in> set [0..<B]. b < length (s_hn ?st1) \<and> b < length (s_cn ?st1) \<and> b < length (s_beam ?st1)"
    using len lout by simp
  have d3: "\<forall>b \<in> set [0..<B]. get_current_origin (fst (advance (s_beam ?st1 ! b) (?lp b))) = [0]"
    using origin by simp
  from advance_all_lanes [OF d1 d2 d3, of "[]"] obtain s' where all:
    "advance_all 1 ?lp [0..<B] ?st1 [] =
            Inr (s', [] @ filter (\<lambda>b. snd (advance (s_beam ?st1 ! b) (?lp b))) [0..<B]) \<and>
     s_hn s' = s_hn ?st1 \<and> s_cn s' = s_cn ?st1 \<and> s_attns s' = s_attns ?st1 \<and>
     length (s_beam s') = length (s_beam ?st1) \<and>
     (\<forall>i < length (s_beam ?st1). s_beam s' ! i =
              (if i \<in> set [0..<B] then fst (advance (s_beam ?st1 ! i) (?lp i)) else s_beam ?st1 ! i))"
    ..
  from all have run: "advance_all 1 ?lp [0..<B] ?st1 [] =
            Inr (s', filter (\<lambda>b. snd (advance (s_beam s ! b) (?lp b))) [0..<B])"
    by simp
  from all have hn': "s_hn s' = map (\<lambda>(lp, h, cc, a). h) ?out"
    and cn': "s_cn s' = map (\<lambda>(lp, h, cc, a). cc) ?out"
    and lb': "length (s_beam s') = B"
    using len by simp_all
  from all have nth': "\<forall>i < B. s_beam s' ! i = fst (advance (s_beam s ! i) (?lp i))"
    using len by simp
  let ?dl = "filter (\<lambda>b. snd (advance (s_beam s ! b) (?lp b))) [0..<B]"
  have beam': "s_beam s' ! i = fst (advance (s_beam s ! i) (?lp i))" if "i < B" for i
    using nth' that by simp
  \<comment> \<open>the greedy side\<close>
  note gn = greedy_body_nth [OF g' _ len(4,5)]
  note gf = greedy_body_fields [OF g']
  note gl = greedy_body_lengths [OF g']
  have cnt': "g_total_done g' = length (filter (\<lambda>d. d) (g_done g'))"
    by (rule greedy_body_count [OF g' len(4) cnt])
  have lane': "lane_sim g' s' i" if i: "i < B" for i
  proof (cases "g_done g ! i")
    case True
    with gn [OF i] have "g_done g' ! i" "g_output_seqs g' ! i = g_output_seqs g ! i" by simp_all
    moreover from True i lanes have "b_done (s_beam s ! i)" "lane1 (s_beam s ! i) (g_output_seqs g ! i @ [EOS_ID])"
      by (simp_all add: lane_sim_def)
    ultimately show ?thesis using beam' [OF i] adv_done [OF i True] by (simp add: lane_sim_def)
  next
    case False
    from adv_live [OF i False] obtain b' where
      adv: "advance (s_beam s ! i) (?lp i) = (b', argmax (fst (?gout ! i)) = EOS_ID)"
      and l1: "lane1 b' (g_output_seqs g ! i @ [argmax (fst (?gout ! i))])"
      and d: "b_done b' = (argmax (fst (?gout ! i)) = EOS_ID)"
      by blast
    have b': "s_beam s' ! i = b'" using beam' [OF i] adv by simp
    show ?thesis
    proof (cases "argmax (fst (?gout ! i)) = EOS_ID")
      case True
      with gn [OF i] pred [OF i] False
      have "g_done g' ! i" "g_output_seqs g' ! i = g_output_seqs g ! i" by simp_all
      with l1 d True b' show ?thesis by (simp add: lane_sim_def)
    next
      case ne: False
      with gn [OF i] pred [OF i] False
      have 1: "\<not> g_done g' ! i" "g_output_seqs g' ! i = g_output_seqs g ! i @ [argmax (fst (?gout ! i))]"
        by simp_all
      have 2: "s_hn s' ! i = g_hn g' ! i" "s_cn s' ! i = g_cn g' ! i"
        using hn' cn' gf(1,2) i lout same_out [OF i False] by simp_all
      have 3: "get_current_state b' = [g_dec_inputs g' ! i]"
        using state_lane1 [OF l1] gf(3) pred [OF i] by simp
      from 1 2 3 l1 d ne b' show ?thesis by (simp add: lane_sim_def)
    qed
  qed
  have sim': "sim B g' s'"
    unfolding sim_def
  proof (intro conjI allI impI)
    show "length (g_hn g') = B" "length (g_cn g') = B"
      using gf(1,2) lout by simp_all
    show "length (g_dec_inputs g') = B"
      using gf(3) lout by (simp add: greedy_preds_def)
    show "length (g_done g') = B" "length (g_output_seqs g') = B"
      using gl len by simp_all
    show "length (s_hn s') = B" "length (s_cn s') = B"
      using hn' cn' lout by simp_all
    show "length (s_beam s') = B" by (rule lb')
    show "g_total_done g' = length (filter (\<lambda>d. d) (g_done g'))" by (rule cnt')
  next
    fix i assume "i < B"
    then show "lane_sim g' s' i" by (rule lane')
  qed
  have dmap: "map (\<lambda>b. snd (advance (s_beam s ! b) (?lp b))) [0..<B] = g_done g'"
  proof (rule nth_equalityI)
    show "length (map (\<lambda>b. snd (advance (s_beam s ! b) (?lp b))) [0..<B]) = length (g_done g')"
      using gl len by simp
  next
    fix i assume "i < length (map (\<lambda>b. snd (advance (s_beam s ! b) (?lp b))) [0..<B])"
    then have i: "i < B" by simp
    show "map (\<lambda>b. snd (advance (s_beam s ! b) (?lp b))) [0..<B] ! i = g_done g' ! i"
    proof (cases "g_done g ! i")
      case True
      with gn [OF i] adv_done [OF i True] i show ?thesis by simp
    next
      case False
      from adv_live [OF i False] gn [OF i] pred [OF i] False i show ?thesis by auto
    qed
  qed
  have "length (filter (\<lambda>d. d) (map (\<lambda>b. snd (advance (s_beam s ! b) (?lp b))) [0..<B])) = length ?dl"
    by (simp add: length_filter_map comp_def)
  with cnt' have dl: "length ?dl = g_total_done g'" unfolding dmap by simp
  from body run have bb: "beam_body self ctx 1 B s = ([Decode], Inr (s', ?dl))" by simp
  from g' bb sim' dl show ?thesis by (intro exI conjI)
qed

lemma sim_loop:
  assumes vocab: "\<forall>c t h cc. fst (decode self c t h cc) \<noteq> []"
    and ctx: "length ctx = B" and B: "0 < B"
  shows "sim B g s \<Longrightarrow> g_total_done g < B \<Longrightarrow> n = nat (max_dec_len self - int (g_max_len g)) \<Longrightarrow>
         \<exists>g' s' cs'. greedy_loop self ctx B cs g = (cs', Inr g') \<and>
                     main_loop self ctx 1 B n cs s = (cs', Inr s') \<and> sim B g' s'"
proof (induction n arbitrary: g s cs)
  case 0
  then have "\<not> int (g_max_len g) < max_dec_len self" by simp
  then have "greedy_loop self ctx B cs g = (cs, Inr g)"
    by (subst greedy_loop.simps) simp
  with "0.prems"(1) show ?case by simp
next
  case (Suc n)
  then have lt: "int (g_max_len g) < max_dec_len self" by simp
  from sim_step [OF vocab Suc.prems(1) ctx B] obtain g1 s1 dl where
    g1: "greedy_body self ctx B g = Inr g1"
    and s1: "beam_body self ctx 1 B s = ([Decode], Inr (s1, dl))"
    and sim1: "sim B g1 s1" and dl: "length dl = g_total_done g1"
    by blast
  have gstep: "greedy_loop self ctx B cs g = greedy_loop self ctx B (cs @ [Decode]) g1"
    using Suc.prems(2) lt g1 by (subst greedy_loop.simps) simp
  have le: "g_total_done g1 \<le> B"
  proof -
    from sim1 have "g_total_done g1 = length (filter (\<lambda>d. d) (g_done g1))" "length (g_done g1) = B"
      by (simp_all add: sim_def)
    then show ?thesis by (metis length_filter_le)
  qed
  show ?case
  proof (cases "length dl = B")
    case True
    with dl have "\<not> g_total_done g1 < B" by simp
    then have "greedy_loop self ctx B (cs @ [Decode]) g1 = (cs @ [Decode], Inr g1)"
      by (subst greedy_loop.simps) simp
    moreover have "main_loop self ctx 1 B (Suc n) cs s = (cs @ [Decode], Inr s1)"
      using s1 True by simp
    ultimately show ?thesis using gstep sim1 by simp
  next
    case False
    with dl le have td: "g_total_done g1 < B" by simp
    have n: "n = nat (max_dec_len self - int (g_max_len g1))"
      using Suc.prems(3) greedy_body_max_len [OF g1] by simp
    have "main_loop self ctx 1 B (Suc n) cs s = main_loop self ctx 1 B n (cs @ [Decode]) s1"
      using s1 False by simp
    with Suc.IH [OF sim1 td n, of "cs @ [Decode]"] gstep show ?thesis by simp
  qed
qed

lemma lane1_new_beam: "lane1 (new_beam 1) []"
  by (simp add: lane1_def new_beam_def)

lemma sim_init:
  assumes "length hn = B" and "length cn = B"
  shows "sim B (greedy_init B hn cn) \<lparr>s_hn = hn, s_cn = cn, s_beam = replicate B (new_beam 1), s_attns = []\<rparr>"
proof -
  have d: "\<not> b_done (new_beam 1)" by (simp add: new_beam_def)
  show ?thesis
    using assms lane1_new_beam d
    by (simp add: sim_def lane_sim_def greedy_init_def state_lane1)
qed

lemma sim_back_trace:
  assumes "sim B g s"
  shows "\<exists>scores. back_trace (s_beam s) = Inr (map prune_hyp (g_output_seqs g), scores)"
proof -
  from assms have len: "length (s_beam s) = B" "length (g_output_seqs g) = B"
    and lanes: "\<forall>i < B. lane_sim g s i"
    by (simp_all add: sim_def)
  have "\<forall>b \<in> set (s_beam s). \<exists>sc. sort_best b = ([sc], [0])"
  proof
    fix b assume "b \<in> set (s_beam s)"
    with len obtain i where "i < B" "b = s_beam s ! i" by (auto simp: in_set_conv_nth)
    with lanes lane_sim_lane1 obtain ts where "lane1 b ts" by blast
    then show "\<exists>sc. sort_best b = ([sc], [0])" by (rule sort_best_lane1)
  qed
  from back_trace_lanes [OF this] obtain scores where
    bt: "back_trace (s_beam s) = Inr (map (\<lambda>b. prune_hyp (get_hyp b 0)) (s_beam s), scores)"
    by blast
  have "map (\<lambda>b. prune_hyp (get_hyp b 0)) (s_beam s) = map prune_hyp (g_output_seqs g)"
  proof (rule nth_equalityI)
    show "length (map (\<lambda>b. prune_hyp (get_hyp b 0)) (s_beam s)) = length (map prune_hyp (g_output_seqs g))"
      using len by simp
  next
    fix i assume "i < length (map (\<lambda>b. prune_hyp (get_hyp b 0)) (s_beam s))"
    then have i: "i < B" using len by simp
    have "prune_hyp (get_hyp (s_beam s ! i) 0) = prune_hyp (g_output_seqs g ! i)"
    proof (cases "g_done g ! i")
      case True
      with lanes i have "lane1 (s_beam s ! i) (g_output_seqs g ! i @ [EOS_ID])"
        by (simp add: lane_sim_def)
      then have "get_hyp (s_beam s ! i) 0 = g_output_seqs g ! i @ [EOS_ID]"
        by (rule get_hyp_lane1)
      then show ?thesis by (simp add: prune_hyp_snoc is_control_def)
    next
      case False
      with lanes i have "lane1 (s_beam s ! i) (g_output_seqs g ! i)"
        by (simp add: lane_sim_def)
      then show ?thesis by (simp add: get_hyp_lane1)
    qed
    with i len show "map (\<lambda>b. prune_hyp (get_hyp b 0)) (s_beam s) ! i = map prune_hyp (g_output_seqs g) ! i"
      by simp
  qed
  with bt show ?thesis by simp
qed

text \<open>
  C1 (amended). A call of \<open>predict\<close> with \<open>beam_size = 1\<close> is the call of
  \<open>predict_greedy\<close>. On a batch with at least one example, with a Scorer whose rows of
  log-probabilities are never empty, and with log-probabilities added exactly, the
  greedy path (with or without attention logging) returns a triple and the beam path
  run with width 1 and \<^verbatim>\<open>log_attn=False\<close> returns a pair; both make the same Scorer
  calls and return the same edit logits, and the token sequences of the beam path are
  those of the greedy path with the leading and trailing control tokens pruned. The
  beam path with \<^verbatim>\<open>log_attn=True\<close> is left out here: it is the subject of the
  subsection on attention logging.
\<close>

theorem predict_beam_width_one:
  assumes sb: "same_batch src src_mask lem lem_mask" and ne: "src \<noteq> []"
    and vocab: "\<forall>c t h cc. fst (decode self c t h cc) \<noteq> []"
  shows "predict self src src_mask lem lem_mask 1 log_attn =
           predict_greedy self src src_mask lem lem_mask log_attn \<and>
         (\<exists>output_seqs e la.
            ret (predict_greedy self src src_mask lem lem_mask log_attn) = Inr (Ret3 output_seqs e la) \<and>
            ret (predict_beam self src src_mask lem lem_mask 1 False) =
              Inr (Ret2 (map prune_hyp output_seqs) e) \<and>
            calls (predict_beam self src src_mask lem lem_mask 1 False) =
              calls (predict_greedy self src src_mask lem lem_mask log_attn))"
proof
  show "predict self src src_mask lem lem_mask 1 log_attn =
        predict_greedy self src src_mask lem lem_mask log_attn"
    by (simp add: predict_def)
next
  let ?enc = "encode_batch self src src_mask lem lem_mask"
  let ?ctx = "map (\<lambda>(c, h, cc). c) ?enc"
  let ?hn = "map (\<lambda>(c, h, cc). h) ?enc"
  let ?cn = "map (\<lambda>(c, h, cc). cc) ?enc"
  let ?B = "length src"
  let ?g0 = "greedy_init ?B ?hn ?cn"
  let ?s0 = "\<lparr>s_hn = ?hn, s_cn = ?cn, s_beam = replicate ?B (new_beam 1), s_attns = []\<rparr>"
  have lenc: "length ?enc = ?B" using sb by (simp add: encode_batch_def same_batch_def)
  have B: "0 < ?B" using ne by simp
  have sim0: "sim ?B ?g0 ?s0" by (rule sim_init) (simp_all add: lenc)
  have td: "g_total_done ?g0 < ?B" using B by (simp add: greedy_init_def)
  have n: "nat (max_dec_len self) = nat (max_dec_len self - int (g_max_len ?g0))"
    by (simp add: greedy_init_def)
  from sim_loop [OF vocab _ B sim0 td n, of ?ctx "[Encode, Encode]"] lenc obtain g' s' cs' where
    gl: "greedy_loop self ?ctx ?B [Encode, Encode] ?g0 = (cs', Inr g')"
    and ml: "main_loop self ?ctx 1 ?B (nat (max_dec_len self)) [Encode, Encode] ?s0 = (cs', Inr s')"
    and sim': "sim ?B g' s'"
    by auto
  from sim_back_trace [OF sim'] obtain scores where
    bt: "back_trace (s_beam s') = Inr (map prune_hyp (g_output_seqs g'), scores)"
    by blast
  have bs: "beam_search self src src_mask lem lem_mask 1 = (cs', Inr s')"
    using sb ml by (simp add: beam_search_def beam_setup_def Let_def)
  have pg: "predict_greedy self src src_mask lem lem_mask log_attn =
        \<lparr>calls = cs', dumped = None,
         ret = Inr (Ret3 (g_output_seqs g') (edit_logits_of self ?hn)
                  (if log_attn
                   then Some \<lparr>la_src = src, la_lem = lem, la_attns = g_attns g',
                              la_all_hyp = g_output_seqs g'\<rparr>
                   else None))\<rparr>"
    using sb gl by (simp add: predict_greedy_def Let_def)
  have pb: "predict_beam self src src_mask lem lem_mask 1 False =
        \<lparr>calls = cs', dumped = None,
         ret = Inr (Ret2 (map prune_hyp (g_output_seqs g')) (edit_logits_of self ?hn))\<rparr>"
    using bs bt by (simp add: predict_beam_def Let_def)
  show "\<exists>output_seqs e la.
            ret (predict_greedy self src src_mask lem lem_mask log_attn) = Inr (Ret3 output_seqs e la) \<and>
            ret (predict_beam self src src_mask lem lem_mask 1 False) =
              Inr (Ret2 (map prune_hyp output_seqs) e) \<and>
            calls (predict_beam self src src_mask lem lem_mask 1 False) =
              calls (predict_greedy self src src_mask lem lem_mask log_attn)"
    unfolding pg pb by simp
qed

theorem predict_beam_width_one_witness:
  "same_batch [[3, 3, 0], [4, 0, 0]] [[0, 0, 0], [0, 1, 1]] [[1, 2, 0], [1, 2, 0]] [[0, 0, 1], [0, 0, 1]] \<and>
   (\<forall>c t h cc. fst (decode (spell 4) c t h cc) \<noteq> []) \<and>
   predict (spell 4) [[3, 3, 0], [4, 0, 0]] [[0, 0, 0], [0, 1, 1]] [[1, 2, 0], [1, 2, 0]] [[0, 0, 1], [0, 0, 1]] 1 False = predict_greedy (spell 4) [[3, 3, 0], [4, 0, 0]] [[0, 0, 0], [0, 1, 1]] [[1, 2, 0], [1, 2, 0]] [[0, 0, 1], [0, 0, 1]] False \<and>
   ret (predict_greedy (spell 4) [[3, 3, 0], [4, 0, 0]] [[0, 0, 0], [0, 1, 1]] [[1, 2, 0], [1, 2, 0]] [[0, 0, 1], [0, 0, 1]] False) = Inr (Ret3 [[3, 3, 0], [4]] (Some [1, 1]) None) \<and>
   ret (predict_beam (spell 4) [[3, 3, 0], [4, 0, 0]] [[0, 0, 0], [0, 1, 1]] [[1, 2, 0], [1, 2, 0]] [[0, 0, 1], [0, 0, 1]] 1 False) = Inr (Ret2 [[3, 3], [4]] (Some [1, 1])) \<and>
   map prune_hyp [[3, 3, 0], [4]] = [[3, 3], [4]]"
proof -
  have sb: "same_batch [[3, 3, 0], [4, 0, 0]] [[0, 0, 0], [0, 1, 1]] [[1, 2, 0], [1, 2, 0]] [[0, 0, 1], [0, 0, 1]]"
    by (simp add: same_batch_def)
  have ne: "[[3, 3, 0], [4, 0, 0]] \<noteq> ([] :: nat list list)" by simp
  have vocab: "\<forall>c t h cc. fst (decode (spell 4) c t h cc) \<noteq> []"
    by (simp add: spell_def spell_log_probs_def)
  have run: "ret (predict_greedy (spell 4) [[3, 3, 0], [4, 0, 0]] [[0, 0, 0], [0, 1, 1]] [[1, 2, 0], [1, 2, 0]] [[0, 0, 1], [0, 0, 1]] False) = Inr (Ret3 [[3, 3, 0], [4]] (Some [1, 1]) None)"
    by code_simp
  have pr: "map prune_hyp [[3, 3, 0], [4]] = [[3, 3], [4]]"
    by code_simp
  from predict_beam_width_one [OF sb ne vocab, of False] sb vocab run
  show ?thesis unfolding pr [symmetric] by auto
qed

text \<open>
  C1 as stated fails. The two paths do not return values of one shape: the greedy path
  returns \<^verbatim>\<open>(output_seqs, edit_logits, log_attns)\<close>, the beam path
  \<^verbatim>\<open>(all_hyp, edit_logits)\<close>. And the beam path prunes its hypotheses, the greedy path
  does not: a padding token predicted last stays in the greedy output.
\<close>

theorem predict_beam_width_one_counterexample:
  "ret (predict (spell 4) [[3, 3], [4, 0]] [[0, 0], [0, 1]] [[1, 2, 0], [1, 2, 0]]
          [[0, 0, 1], [0, 0, 1]] 1 False) = Inr (Ret3 [[3, 3], [4]] (Some [1, 1]) None) \<and>
   ret (predict_beam (spell 4) [[3, 3], [4, 0]] [[0, 0], [0, 1]] [[1, 2, 0], [1, 2, 0]]
          [[0, 0, 1], [0, 0, 1]] 1 False) = Inr (Ret2 [[3, 3], [4]] (Some [1, 1])) \<and>
   ret (predict (spell 4) [[3, 3, 0]] [[0, 0, 0]] [[1, 2, 0]] [[0, 0, 1]] 1 False) =
     Inr (Ret3 [[3, 3, 0]] (Some [1]) None) \<and>
   ret (predict_beam (spell 4) [[3, 3, 0]] [[0, 0, 0]] [[1, 2, 0]] [[0, 0, 1]] 1 False) =
     Inr (Ret2 [[3, 3]] (Some [1]))"
  by code_simp

end
